theory Spec2Isabelle
  imports Complex_Main
begin

section \<open>The textual protocol layer of \<^verbatim>\<open>ffi_utils.h\<close>\<close>

text \<open>
  A shallow embedding of the seven inline functions of namespace \<^verbatim>\<open>cactus::ffi\<close>.
  A \<^verbatim>\<open>std::string\<close> is a \<open>string\<close> (a list of bytes), a \<^verbatim>\<open>size_t\<close> is a natural
  number below \<open>2 ^ 64\<close> with the wrap-around written out where an operand can be
  \<^verbatim>\<open>npos\<close> or \<open>0\<close>, an exception and an out-of-bounds read are values of \<open>error\<close>, and a
  loop that the source does not bound is a partial function whose value \<open>None\<close> means
  that the call does not return.
\<close>

subsection \<open>Errors\<close>

datatype error =
    Runtime_error string  \<comment> \<open>\<^verbatim>\<open>throw std::runtime_error(msg)\<close>\<close>
  | Invalid_argument      \<comment> \<open>\<^verbatim>\<open>std::invalid_argument\<close> of \<^verbatim>\<open>std::stof\<close>, \<^verbatim>\<open>std::stoul\<close>\<close>
  | Out_of_range          \<comment> \<open>\<^verbatim>\<open>std::out_of_range\<close> of \<^verbatim>\<open>substr\<close>, \<^verbatim>\<open>replace\<close>, \<^verbatim>\<open>stof\<close>, \<^verbatim>\<open>stoul\<close>\<close>
  | Out_of_bounds_read    \<comment> \<open>\<^verbatim>\<open>operator[]\<close> beyond \<^verbatim>\<open>size()\<close>: undefined behaviour\<close>
  | Buffer_overrun        \<comment> \<open>\<^verbatim>\<open>strcpy\<close> beyond the destination: undefined behaviour\<close>

subsection \<open>\<^verbatim>\<open>size_t\<close> and \<^verbatim>\<open>std::string\<close>\<close>

definition npos :: nat where
  "npos = 18446744073709551615"

definition size_add :: "nat \<Rightarrow> nat \<Rightarrow> nat" where
  "size_add a b = (a + b) mod 18446744073709551616"

definition size_sub :: "nat \<Rightarrow> nat \<Rightarrow> nat" where
  "size_sub a b = (a + 18446744073709551616 - b) mod 18446744073709551616"

fun starts_with :: "string \<Rightarrow> string \<Rightarrow> bool" where
  "starts_with xs [] = True"
| "starts_with [] (p # ps) = False"
| "starts_with (x # xs) (p # ps) = (x = p \<and> starts_with xs ps)"

text \<open>The offset of the first occurrence of \<open>pat\<close> in \<open>xs\<close>.\<close>

fun first_match :: "string \<Rightarrow> string \<Rightarrow> nat option" where
  "first_match pat [] = (if pat = [] then Some 0 else None)"
| "first_match pat (x # xs) =
     (if starts_with (x # xs) pat then Some 0
      else map_option (\<lambda>k. k + 1) (first_match pat xs))"

text \<open>
  \<^verbatim>\<open>s.find(pat, pos)\<close>: the first index at or after \<open>pos\<close> where \<open>pat\<close> occurs, \<open>npos\<close>
  when there is none or when \<open>pos\<close> is beyond the size. A string is shorter than \<open>npos\<close>,
  so a search from \<open>npos\<close> finds nothing.
\<close>

definition str_find :: "string \<Rightarrow> string \<Rightarrow> nat \<Rightarrow> nat" where
  "str_find s pat pos =
     (if length s < pos \<or> npos \<le> pos then npos
      else case first_match pat (drop pos s) of None \<Rightarrow> npos | Some k \<Rightarrow> pos + k)"

definition str_find_char :: "string \<Rightarrow> char \<Rightarrow> nat \<Rightarrow> nat" where
  "str_find_char s c pos = str_find s [c] pos"

text \<open>\<^verbatim>\<open>s.rfind(c)\<close>: the last index of \<open>c\<close>, or \<open>npos\<close>.\<close>

definition str_rfind_char :: "string \<Rightarrow> char \<Rightarrow> nat" where
  "str_rfind_char s c =
     (case first_match [c] (rev s) of None \<Rightarrow> npos | Some k \<Rightarrow> length s - 1 - k)"

text \<open>\<^verbatim>\<open>s.substr(pos, n)\<close> throws when \<open>pos\<close> is beyond the size and clamps \<open>n\<close>.\<close>

definition substr :: "string \<Rightarrow> nat \<Rightarrow> nat \<Rightarrow> error + string" where
  "substr s pos n = (if length s < pos then Inl Out_of_range else Inr (take n (drop pos s)))"

text \<open>\<^verbatim>\<open>s.replace(pos, n, t)\<close>.\<close>

definition str_replace :: "string \<Rightarrow> nat \<Rightarrow> nat \<Rightarrow> string \<Rightarrow> error + string" where
  "str_replace s pos n t =
     (if length s < pos then Inl Out_of_range else Inr (take pos s @ t @ drop (pos + n) s))"

text \<open>\<^verbatim>\<open>s[i]\<close>: the byte at \<open>i\<close>, the terminator at \<open>size()\<close>, undefined beyond.\<close>

definition str_at :: "string \<Rightarrow> nat \<Rightarrow> error + char" where
  "str_at s i =
     (if i < length s then Inr (s ! i)
      else if i = length s then Inr (CHR 0x00)
      else Inl Out_of_bounds_read)"

abbreviation BSL :: char where
  "BSL \<equiv> CHR 0x5C"

abbreviation NL :: char where
  "NL \<equiv> CHR 0x0A"

subsection \<open>\<^verbatim>\<open>handle_error_response\<close>\<close>

definition sanitize_char :: "char \<Rightarrow> char" where
  \<open>sanitize_char c =
     (let c1 = (if c = CHR ''"'' then CHR 0x27 else c)
      in if c1 = NL then CHR '' '' else c1)\<close>

definition error_json :: "string \<Rightarrow> string" where
  \<open>error_json error_message =
     ''{"success":false,"error":"'' @ map sanitize_char error_message @ ''"}''\<close>

text \<open>
  \<^verbatim>\<open>strcpy(dst, src.c_str())\<close> writes the bytes of \<open>src\<close> up to its first zero byte,
  and a terminator, over the start of the destination array, whose bytes are \<open>dst\<close>.
\<close>

definition strcpy :: "string \<Rightarrow> string \<Rightarrow> error + string" where
  "strcpy dst src =
     (let bytes = takeWhile (\<lambda>c. c \<noteq> CHR 0x00) src
      in if length dst < length bytes + 1 then Inl Buffer_overrun
         else Inr (bytes @ [CHR 0x00] @ drop (length bytes + 1) dst))"

text \<open>
  The function returns \<^verbatim>\<open>void\<close>: the value \<open>()\<close>. Its effect is on the array behind
  \<open>response_buffer\<close> (\<open>None\<close> is the null pointer); the result pairs the return value
  with the array after the call.
\<close>

definition handle_error_response ::
  "string \<Rightarrow> string option \<Rightarrow> nat \<Rightarrow> error + (unit \<times> string option)" where
  "handle_error_response error_message response_buffer buffer_size =
     (case response_buffer of
        None \<Rightarrow> Inr ((), None)
      | Some dst \<Rightarrow>
          if length (error_json error_message) < buffer_size
          then (case strcpy dst (error_json error_message) of
                  Inl e \<Rightarrow> Inl e
                | Inr dst' \<Rightarrow> Inr ((), Some dst'))
          else Inr ((), Some dst))"

subsection \<open>Facts about searching\<close>

lemma starts_with_take: "starts_with xs pat \<longleftrightarrow> take (length pat) xs = pat"
  by (induction xs pat rule: starts_with.induct) auto

lemma starts_with_length: "starts_with xs pat \<Longrightarrow> length pat \<le> length xs"
  by (induction xs pat rule: starts_with.induct) auto

lemma first_match_SomeD:
  "first_match pat xs = Some k \<Longrightarrow>
     k + length pat \<le> length xs \<and> starts_with (drop k xs) pat \<and>
     (\<forall>j<k. \<not> starts_with (drop j xs) pat)"
proof (induction xs arbitrary: k)
  case Nil
  then show ?case by (auto split: if_splits)
next
  case (Cons x xs)
  show ?case
  proof (cases "starts_with (x # xs) pat")
    case True
    with Cons.prems have "k = 0" by simp
    with True starts_with_length [OF True] show ?thesis
      by simp
  next
    case False
    with Cons.prems obtain k' where k': "first_match pat xs = Some k'" "k = Suc k'"
      by auto
    from Cons.IH [OF k'(1)] False k'(2) show ?thesis
      by (auto simp: less_Suc_eq_0_disj)
  qed
qed

lemma first_match_NoneD:
  "first_match pat xs = None \<Longrightarrow> j \<le> length xs \<Longrightarrow> \<not> starts_with (drop j xs) pat"
proof (induction xs arbitrary: j)
  case Nil
  then show ?case by (cases pat) (auto split: if_splits)
next
  case (Cons x xs)
  then show ?case by (cases j) (auto split: if_splits)
qed

lemma str_find_found:
  assumes "str_find s pat pos = k" and "k \<noteq> npos"
  shows "pos \<le> k" and "k + length pat \<le> length s" and "starts_with (drop k s) pat"
    and "\<And>j. pos \<le> j \<Longrightarrow> j < k \<Longrightarrow> \<not> starts_with (drop j s) pat"
proof -
  from assms obtain d where d: "first_match pat (drop pos s) = Some d" "k = pos + d" "pos \<le> length s"
    by (auto simp: str_find_def split: if_splits option.splits)
  note fm = first_match_SomeD [OF d(1)]
  show "pos \<le> k" using d by simp
  show "k + length pat \<le> length s"
  proof -
    from fm have "d + length pat \<le> length s - pos" by simp
    with d show ?thesis by linarith
  qed
  show "starts_with (drop k s) pat" using fm d by (simp add: add.commute)
  show "\<not> starts_with (drop j s) pat" if "pos \<le> j" "j < k" for j
  proof -
    from that d have "j - pos < d" by simp
    with fm have "\<not> starts_with (drop (j - pos) (drop pos s)) pat" by blast
    with that show ?thesis by simp
  qed
qed

lemma str_find_char_found:
  assumes "str_find_char s c pos = k" and "k \<noteq> npos"
  shows "pos \<le> k" and "k < length s" and "s ! k = c"
    and "\<And>j. pos \<le> j \<Longrightarrow> j < k \<Longrightarrow> s ! j \<noteq> c"
proof -
  note f = str_find_found [OF assms [unfolded str_find_char_def]]
  show "pos \<le> k" by (rule f(1))
  show lt: "k < length s" using f(2) by simp
  show "s ! k = c" using f(3) lt
    by (simp add: starts_with_take take_Suc_conv_app_nth hd_drop_conv_nth)
  show "s ! j \<noteq> c" if "pos \<le> j" "j < k" for j
  proof
    assume "s ! j = c"
    moreover from that lt have "j < length s" by simp
    ultimately have "starts_with (drop j s) [c]"
      by (simp add: Cons_nth_drop_Suc [symmetric])
    with f(4) [OF that] show False by simp
  qed
qed

subsection \<open>\<^verbatim>\<open>parse_messages_json\<close>\<close>

text \<open>
  Modelled from the spec: \<^verbatim>\<open>cactus::engine::ChatMessage\<close> is declared in
  \<^verbatim>\<open>engine/engine.h\<close>, which is not among the sources; the decoder assigns its two
  string members \<^verbatim>\<open>role\<close> and \<^verbatim>\<open>content\<close> (the spec's ChatTurn).
\<close>

record ChatMessage =
  role :: string
  content :: string

text \<open>
  The scan for the closing quote of the content value (lines 58 to 63). The byte before
  the quote is read at \<^verbatim>\<open>content_end - 1\<close>, which wraps at \<open>0\<close>.
\<close>

function content_scan :: "string \<Rightarrow> nat \<Rightarrow> error + nat" where
  \<open>content_scan json content_end =
     (if content_end < length json then
        (let q = str_find_char json (CHR ''"'') content_end in
         if q = npos then Inr q
         else (case str_at json (size_sub q 1) of
                 Inl e \<Rightarrow> Inl e
               | Inr c \<Rightarrow> if c \<noteq> BSL then Inr q else content_scan json (q + 1)))
      else Inr content_end)\<close>
  by pat_completeness auto
termination
proof (relation "measure (\<lambda>(json, content_end). length json - content_end)")
  show "wf (measure (\<lambda>(json, content_end). length json - content_end))" by simp
next
  fix json content_end q x2
  assume "content_end < length json" and q: "q = str_find_char json (CHR 0x22) content_end"
    and "q \<noteq> npos"
  from str_find_char_found(1,2) [OF q [symmetric] \<open>q \<noteq> npos\<close>]
  show "((json, q + 1), (json, content_end)) \<in> measure (\<lambda>(json, content_end). length json - content_end)"
    by simp
qed

declare content_scan.simps [simp del]

text \<open>
  One of the two replacement loops (lines 67 to 71 and 72 to 76): every occurrence of
  the two bytes backslash, \<open>c\<close> found from \<open>escape_pos\<close> on is replaced by the byte \<open>r\<close>,
  and the search goes on behind the replacement.
\<close>

function replace_escape :: "string \<Rightarrow> char \<Rightarrow> char \<Rightarrow> nat \<Rightarrow> error + string" where
  "replace_escape msg_content c r escape_pos =
     (let p = str_find msg_content [BSL, c] escape_pos in
      if p = npos then Inr msg_content
      else (case str_replace msg_content p 2 [r] of
              Inl e \<Rightarrow> Inl e
            | Inr msg_content' \<Rightarrow> replace_escape msg_content' c r (p + 1)))"
  by pat_completeness auto
termination
proof (relation "measure (\<lambda>(msg_content, c, r, escape_pos). length msg_content - escape_pos)")
  show "wf (measure (\<lambda>(msg_content, c, r, escape_pos). length msg_content - escape_pos))" by simp
next
  fix msg_content :: string and c r :: char and escape_pos p :: nat and msg_content' :: string
  assume p: "p = str_find msg_content [BSL, c] escape_pos" and "p \<noteq> npos"
    and r: "str_replace msg_content p 2 [r] = Inr msg_content'"
  note f = str_find_found(1,2) [OF p [symmetric] \<open>p \<noteq> npos\<close>]
  from r f have "length msg_content' = length msg_content - 1"
    by (auto simp: str_replace_def split: if_splits)
  with f show "((msg_content', c, r, p + 1), (msg_content, c, r, escape_pos))
      \<in> measure (\<lambda>(msg_content, c, r, escape_pos). length msg_content - escape_pos)"
    by simp
qed

declare replace_escape.simps [simp del]

text \<open>The two passes over the extracted content, in the order of the source.\<close>

definition unescape_content :: "string \<Rightarrow> error + string" where
  \<open>unescape_content raw =
     (case replace_escape raw (CHR ''n'') NL 0 of
        Inl e \<Rightarrow> Inl e
      | Inr content1 \<Rightarrow> replace_escape content1 (CHR ''"'') (CHR ''"'') 0)\<close>

text \<open>
  The loop of lines 42 to 81; \<open>pos\<close> is the position of the next opening brace. The
  source gives no bound for it, so it is a partial function.
\<close>

partial_function (option) parse_messages_loop ::
  "string \<Rightarrow> nat \<Rightarrow> ChatMessage list \<Rightarrow> (error + ChatMessage list) option" where
  \<open>parse_messages_loop json pos messages =
     (if pos = npos then Some (Inr messages)
      else
        (let role_pos = str_find json ''"role"'' pos in
         if role_pos = npos then Some (Inr messages)
         else
           (let role_start = size_add (str_find_char json (CHR ''"'') (role_pos + 6)) 1;
                role_end = str_find_char json (CHR ''"'') role_start
            in (case substr json role_start (size_sub role_end role_start) of
                  Inl e \<Rightarrow> Some (Inl e)
                | Inr msg_role \<Rightarrow>
                   (let content_pos = str_find json ''"content"'' role_end in
                    if content_pos = npos then Some (Inr messages)
                    else
                      (let content_start =
                             size_add (str_find_char json (CHR ''"'') (content_pos + 9)) 1
                       in (case content_scan json content_start of
                             Inl e \<Rightarrow> Some (Inl e)
                           | Inr content_end \<Rightarrow>
                              (case substr json content_start
                                      (size_sub content_end content_start) of
                                 Inl e \<Rightarrow> Some (Inl e)
                               | Inr raw \<Rightarrow>
                                  (case unescape_content raw of
                                     Inl e \<Rightarrow> Some (Inl e)
                                   | Inr msg_content \<Rightarrow>
                                       parse_messages_loop json
                                         (str_find_char json (CHR ''{'') content_end)
                                         (messages @
                                            [\<lparr>role = msg_role, content = msg_content\<rparr>]))))))))))\<close>

declare parse_messages_loop.simps [code]

definition parse_messages_json :: "string \<Rightarrow> (error + ChatMessage list) option" where
  "parse_messages_json json =
     (let pos = str_find_char json (CHR ''['') 0 in
      if pos = npos then Some (Inl (Runtime_error ''Invalid JSON: expected array''))
      else parse_messages_loop json (str_find_char json (CHR ''{'') pos) [])"

subsection \<open>\<^verbatim>\<open>parse_tools_json\<close>\<close>

record ToolFunction =
  name :: string
  description :: string
  parameters :: "string \<rightharpoonup> string"

text \<open>
  The brace-counting scans of lines 118 to 122 and 227 to 231, which differ only in how
  they write the update of the counter. The index is read under the guard of the loop.
  \<^verbatim>\<open>brace_count\<close> is an \<^verbatim>\<open>int\<close>; it stays far from its bounds on every string that
  fits in memory and is an unbounded integer here.
\<close>

function brace_scan :: "string \<Rightarrow> nat \<Rightarrow> int \<Rightarrow> nat \<times> int" where
  "brace_scan s e brace_count =
     (if e < length s \<and> 0 < brace_count
      then brace_scan s (e + 1)
             (if s ! e = CHR ''{'' then brace_count + 1
              else if s ! e = CHR ''}'' then brace_count - 1
              else brace_count)
      else (e, brace_count))"
  by pat_completeness auto
termination
  by (relation "measure (\<lambda>(s, e, brace_count). length s - e)") auto

declare brace_scan.simps [simp del]

definition tool_name :: "string \<Rightarrow> nat \<Rightarrow> error + string" where
  \<open>tool_name json name_pos =
     (if name_pos \<noteq> npos then
        (let name_start = size_add (str_find_char json (CHR ''"'') (name_pos + 6)) 1;
             name_end = str_find_char json (CHR ''"'') name_start
         in substr json name_start (size_sub name_end name_start))
      else Inr [])\<close>

definition tool_description :: "string \<Rightarrow> nat \<Rightarrow> error + string" where
  \<open>tool_description json pos =
     (let desc_pos = str_find json ''"description"'' pos in
      if desc_pos \<noteq> npos then
        (let desc_start = size_add (str_find_char json (CHR ''"'') (desc_pos + 13)) 1;
             desc_end = str_find_char json (CHR ''"'') desc_start
         in substr json desc_start (size_sub desc_end desc_start))
      else Inr [])\<close>

definition tool_parameters :: "string \<Rightarrow> nat \<Rightarrow> error + (string \<rightharpoonup> string)" where
  \<open>tool_parameters json pos =
     (let params_pos = str_find json ''"parameters"'' pos in
      if params_pos \<noteq> npos then
        (let params_start = str_find_char json (CHR ''{'') params_pos in
         if params_start \<noteq> npos then
           (let params_end = fst (brace_scan json (params_start + 1) 1)
            in (case substr json params_start (size_sub params_end params_start) of
                  Inl e \<Rightarrow> Inl e
                | Inr schema \<Rightarrow> Inr [''schema'' \<mapsto> schema]))
         else Inr Map.empty)
      else Inr Map.empty)\<close>

lemma name_not_function:
  \<open>starts_with xs ''"name"'' \<Longrightarrow> starts_with xs ''"function"'' \<Longrightarrow> False\<close>
  by (cases xs; cases "tl xs") auto

text \<open>The loop of lines 95 to 130; \<open>pos\<close> is the position of a \<^verbatim>\<open>"function"\<close> marker.\<close>

function parse_tools_loop ::
  "string \<Rightarrow> nat \<Rightarrow> ToolFunction list \<Rightarrow> error + ToolFunction list" where
  \<open>parse_tools_loop json pos tools =
     (if pos = npos then Inr tools
      else
        (let name_pos = str_find json ''"name"'' pos in
         (case tool_name json name_pos of
            Inl e \<Rightarrow> Inl e
          | Inr tool_nm \<Rightarrow>
             (case tool_description json pos of
                Inl e \<Rightarrow> Inl e
              | Inr tool_desc \<Rightarrow>
                 (case tool_parameters json pos of
                    Inl e \<Rightarrow> Inl e
                  | Inr tool_params \<Rightarrow>
                      parse_tools_loop json (str_find json ''"function"'' name_pos)
                        (tools @ [\<lparr>name = tool_nm, description = tool_desc,
                                   parameters = tool_params\<rparr>]))))))\<close>
  by pat_completeness auto
termination
proof (relation "measure (\<lambda>(json, pos, tools). if pos = npos then 0 else Suc (length json - pos))")
  show "wf (measure (\<lambda>(json, pos, tools). if pos = npos then 0 else Suc (length json - pos)))"
    by simp
next
  fix json :: string and pos :: nat and tools :: "ToolFunction list" and name_pos :: nat
    and tool_nm tool_desc :: string and tool_params :: "string \<rightharpoonup> string"
  define pos' where \<open>pos' = str_find json ''"function"'' name_pos\<close>
  assume pos: "pos \<noteq> npos" and np: \<open>name_pos = str_find json ''"name"'' pos\<close>
  have "pos < pos' \<and> pos' \<le> length json" if "pos' \<noteq> npos"
  proof -
    note f = str_find_found [OF pos'_def [symmetric] that]
    have "name_pos \<noteq> npos"
      using that by (auto simp: pos'_def str_find_def)
    note n = str_find_found [OF np [symmetric] this]
    have "pos' \<noteq> name_pos"
      using f(3) n(3) name_not_function by auto
    with f(1,2) n(1) show ?thesis by simp
  qed
  then show \<open>((json, str_find json ''"function"'' name_pos,
        tools @ [\<lparr>name = tool_nm, description = tool_desc, parameters = tool_params\<rparr>]),
      json, pos, tools)
      \<in> measure (\<lambda>(json, pos, tools). if pos = npos then 0 else Suc (length json - pos))\<close>
    using pos by (auto simp: pos'_def)
qed

declare parse_tools_loop.simps [simp del]

definition parse_tools_json :: "string \<Rightarrow> error + ToolFunction list" where
  \<open>parse_tools_json json =
     (if json = [] then Inr []
      else
        (let pos = str_find_char json (CHR ''['') 0 in
         if pos = npos then Inr []
         else parse_tools_loop json (str_find json ''"function"'' pos) []))\<close>

subsection \<open>Numbers\<close>

text \<open>
  A \<^verbatim>\<open>float\<close> or \<^verbatim>\<open>double\<close> is represented by the number it holds: a finite value by
  that rational number, the negative zero, an infinity with its sign, or not-a-number.
\<close>

datatype fp = Finite rat | NegZero | Infinity bool | NaN

definition is_space :: "char \<Rightarrow> bool" where
  "is_space c \<longleftrightarrow>
     c = CHR '' '' \<or> c = CHR 0x09 \<or> c = CHR 0x0A \<or> c = CHR 0x0B \<or> c = CHR 0x0C \<or> c = CHR 0x0D"

definition is_digit :: "char \<Rightarrow> bool" where
  "is_digit c \<longleftrightarrow> 48 \<le> (of_char c :: nat) \<and> (of_char c :: nat) \<le> 57"

definition to_lower :: "char \<Rightarrow> char" where
  "to_lower c =
     (if 65 \<le> (of_char c :: nat) \<and> (of_char c :: nat) \<le> 90
      then char_of ((of_char c :: nat) + 32) else c)"

definition is_hex_digit :: "char \<Rightarrow> bool" where
  "is_hex_digit c \<longleftrightarrow>
     is_digit c \<or> 97 \<le> (of_char (to_lower c) :: nat) \<and> (of_char (to_lower c) :: nat) \<le> 102"

definition digit_value :: "char \<Rightarrow> nat" where
  "digit_value c =
     (if is_digit c then (of_char c :: nat) - 48 else (of_char (to_lower c) :: nat) - 87)"

definition numeral_value :: "nat \<Rightarrow> string \<Rightarrow> nat" where
  "numeral_value base ds = foldl (\<lambda>v d. base * v + digit_value d) 0 ds"

definition split_sign :: "string \<Rightarrow> bool \<times> string" where
  "split_sign s =
     (case s of
        [] \<Rightarrow> (False, [])
      | c # r \<Rightarrow>
          if c = CHR ''-'' then (True, r) else if c = CHR ''+'' then (False, r) else (False, s))"

text \<open>
  \<^verbatim>\<open>std::stoul(str)\<close>, that is \<^verbatim>\<open>strtoul\<close> in base 10 on a 64-bit \<^verbatim>\<open>unsigned long\<close>:
  white space, a sign, decimal digits; a minus sign negates modulo \<open>2 ^ 64\<close>.
\<close>

definition stoul :: "string \<Rightarrow> error + nat" where
  "stoul str =
     (let (neg, s) = split_sign (dropWhile is_space str);
          ds = takeWhile is_digit s
      in if ds = [] then Inl Invalid_argument
         else if 18446744073709551615 < numeral_value 10 ds then Inl Out_of_range
         else Inr (if neg then size_sub 0 (numeral_value 10 ds) else numeral_value 10 ds))"

definition pow_int :: "rat \<Rightarrow> int \<Rightarrow> rat" where
  "pow_int b e = (if 0 \<le> e then b ^ nat e else 1 / b ^ nat (- e))"

text \<open>
  The exponent part of a numeral, introduced by the letter \<open>m\<close>: a sign and decimal digits;
  without digits there is no exponent part.
\<close>

definition exponent_part :: "char \<Rightarrow> string \<Rightarrow> int" where
  "exponent_part m s =
     (case s of
        [] \<Rightarrow> 0
      | c # r \<Rightarrow>
          if to_lower c = m then
            (let (eneg, t) = split_sign r; ds = takeWhile is_digit t
             in if ds = [] then 0
                else if eneg then - int (numeral_value 10 ds) else int (numeral_value 10 ds))
          else 0)"

text \<open>
  The magnitude of the numeral at the start of \<open>s\<close> in the given base (10, or 16 behind
  \<^verbatim>\<open>0x\<close>): digits, a point, digits, an exponent. \<open>None\<close> when there is no digit.
\<close>

definition magnitude :: "nat \<Rightarrow> string \<Rightarrow> rat option" where
  "magnitude base s =
     (let is_d = (if base = 16 then is_hex_digit else is_digit);
          ip = takeWhile is_d s;
          r1 = dropWhile is_d s;
          fd = (case r1 of [] \<Rightarrow> [] | c # t \<Rightarrow> if c = CHR ''.'' then takeWhile is_d t else []);
          r2 = (case r1 of [] \<Rightarrow> [] | c # t \<Rightarrow> if c = CHR ''.'' then dropWhile is_d t else r1)
      in if ip = [] \<and> fd = [] then None
         else if base = 16
         then Some (of_nat (numeral_value 16 (ip @ fd))
                    * pow_int 2 (exponent_part (CHR ''p'') r2 - 4 * int (length fd)))
         else Some (of_nat (numeral_value 10 (ip @ fd))
                    * pow_int 10 (exponent_part (CHR ''e'') r2 - int (length fd))))"

text \<open>Rounding of a non-negative number to the nearest integer, to the even one on a tie.\<close>

definition round_half_even :: "rat \<Rightarrow> nat" where
  "round_half_even x =
     (let f = nat \<lfloor>x\<rfloor>; d = x - of_nat f
      in if d < 1 / 2 then f else if 1 / 2 < d then f + 1 else if even f then f else f + 1)"

text \<open>
  The \<^verbatim>\<open>float\<close> format (binary32) has a significand of 24 bits and exponents from \<open>- 126\<close> to
  \<open>127\<close>. \<open>binade m 253\<close> is the exponent of the binade of \<open>m\<close>: the largest \<open>e\<close> in that range
  with \<open>2 ^ e \<le> m\<close>, and \<open>- 126\<close> for a smaller \<open>m\<close> (the subnormal numbers).
\<close>

fun binade :: "rat \<Rightarrow> nat \<Rightarrow> int" where
  "binade m k =
     (if k = 0 then - 126
      else if pow_int 2 (int k - 126) \<le> m then int k - 126
      else binade m (k - 1))"

declare binade.simps [simp del]

text \<open>
  The nearest multiple of the spacing of the \<^verbatim>\<open>float\<close>s in the binade of \<open>m\<close>, the one with
  the even significand on a tie: the \<^verbatim>\<open>float\<close> nearest to \<open>m\<close>, when it is below \<open>2 ^ 128\<close>.
\<close>

definition round_to_float :: "rat \<Rightarrow> rat" where
  "round_to_float m =
     (let q = pow_int 2 (binade m 253 - 23) in of_nat (round_half_even (m / q)) * q)"

text \<open>
  \<^verbatim>\<open>std::stof(str)\<close>, that is \<^verbatim>\<open>strtof\<close>: white space, a sign, then an infinity, a
  not-a-number, a hexadecimal or a decimal numeral, rounded to the nearest \<^verbatim>\<open>float\<close>. No
  numeral is \<^verbatim>\<open>invalid_argument\<close>. A range error of the library is \<^verbatim>\<open>out_of_range\<close>: it is
  reported when the rounded magnitude is beyond the largest \<^verbatim>\<open>float\<close>. A subnormal or zero
  result that is exact is returned without error. For one that is not exact (an
  underflow) the C standard leaves to the implementation whether the range error is
  reported: \<open>underflow_reported m\<close> is the choice of the library for the magnitude \<open>m\<close>.
\<close>

definition stof :: "(rat \<Rightarrow> bool) \<Rightarrow> string \<Rightarrow> error + fp" where
  "stof underflow_reported str =
     (let (neg, s) = split_sign (dropWhile is_space str);
          low = map to_lower (take 3 s)
      in if low = ''inf'' then Inr (Infinity neg)
         else if low = ''nan'' then Inr NaN
         else
           (case (if map to_lower (take 2 s) = ''0x'' \<and> magnitude 16 (drop 2 s) \<noteq> None
                  then magnitude 16 (drop 2 s) else magnitude 10 s) of
              None \<Rightarrow> Inl Invalid_argument
            | Some m \<Rightarrow>
                (let v = round_to_float m
                 in if 2 ^ 128 \<le> v then Inl Out_of_range
                    else if 0 < m \<and> m < 1 / 2 ^ 126 \<and> v \<noteq> m \<and> underflow_reported m
                    then Inl Out_of_range
                    else if v = 0 \<and> neg then Inr NegZero
                    else Inr (Finite (if neg then - v else v)))))"

text \<open>\<^verbatim>\<open>operator<<\<close> on a \<^verbatim>\<open>size_t\<close>: the decimal digits.\<close>

definition digit_char :: "nat \<Rightarrow> char" where
  "digit_char d = char_of (48 + d)"

fun to_string :: "nat \<Rightarrow> string" where
  "to_string n = (if n < 10 then [digit_char n] else to_string (n div 10) @ [digit_char (n mod 10)])"

declare to_string.simps [simp del]

text \<open>
  \<^verbatim>\<open>operator<<\<close> on a \<^verbatim>\<open>double\<close> under \<^verbatim>\<open>std::fixed\<close> and \<^verbatim>\<open>std::setprecision(2)\<close>:
  the value held, rounded to hundredths (to even on a tie), with its sign.
\<close>

definition format_fixed2 :: "fp \<Rightarrow> string" where
  "format_fixed2 v =
     (case v of
        Finite r \<Rightarrow>
          (let n = round_half_even (\<bar>r\<bar> * 100)
           in (if r < 0 then ''-'' else [])
              @ to_string (n div 100) @ ''.'' @ [digit_char (n div 10 mod 10), digit_char (n mod 10)])
      | NegZero \<Rightarrow> ''-0.00''
      | Infinity neg \<Rightarrow> (if neg then ''-inf'' else ''inf'')
      | NaN \<Rightarrow> ''nan'')"

subsection \<open>\<^verbatim>\<open>parse_options_json\<close>\<close>

text \<open>The five reference parameters that the function assigns.\<close>

record SamplingOptions =
  temperature :: fp
  top_p :: fp
  top_k :: nat
  max_tokens :: nat
  stop_sequences :: "string list"

text \<open>
  The text handed to the numeric conversion for a key (as in lines 147 to 150):
  everything behind the first colon behind the key, the whole text when there is no
  colon. \<open>None\<close> when the key does not occur.
\<close>

definition option_text :: "string \<Rightarrow> string \<Rightarrow> error + string option" where
  "option_text json key =
     (let pos = str_find json key 0 in
      if pos \<noteq> npos then
        (case substr json (size_add (str_find_char json (CHR '':'') pos) 1) npos of
           Inl e \<Rightarrow> Inl e
         | Inr t \<Rightarrow> Inr (Some t))
      else Inr None)"

definition float_option :: "(rat \<Rightarrow> bool) \<Rightarrow> string \<Rightarrow> string \<Rightarrow> fp \<Rightarrow> error + fp" where
  "float_option underflow_reported json key current =
     (case option_text json key of
        Inl e \<Rightarrow> Inl e
      | Inr None \<Rightarrow> Inr current
      | Inr (Some t) \<Rightarrow> stof underflow_reported t)"

definition size_option :: "string \<Rightarrow> string \<Rightarrow> nat \<Rightarrow> error + nat" where
  "size_option json key current =
     (case option_text json key of
        Inl e \<Rightarrow> Inl e
      | Inr None \<Rightarrow> Inr current
      | Inr (Some t) \<Rightarrow> stoul t)"

text \<open>
  The loop of lines 178 to 185. The source gives no bound for it, so it is a partial
  function.
\<close>

partial_function (option) stop_sequences_loop ::
  "string \<Rightarrow> nat \<Rightarrow> nat \<Rightarrow> string list \<Rightarrow> (error + string list) option" where
  \<open>stop_sequences_loop json end_pos seq_pos stops =
     (if seq_pos \<noteq> npos \<and> seq_pos < end_pos then
        (let seq_start = size_add seq_pos 1;
             seq_end = str_find_char json (CHR ''"'') seq_start
         in (case (if seq_end \<noteq> npos
                   then (case substr json seq_start (size_sub seq_end seq_start) of
                           Inl e \<Rightarrow> Inl e
                         | Inr stop \<Rightarrow> Inr (stops @ [stop]))
                   else Inr stops) of
               Inl e \<Rightarrow> Some (Inl e)
             | Inr stops' \<Rightarrow>
                 stop_sequences_loop json end_pos
                   (str_find_char json (CHR ''"'') (size_add seq_end 1)) stops'))
      else Some (Inr stops))\<close>

declare stop_sequences_loop.simps [code]

definition parse_stop_sequences :: "string \<Rightarrow> (error + string list) option" where
  \<open>parse_stop_sequences json =
     (let pos = str_find json ''"stop_sequences"'' 0 in
      if pos \<noteq> npos then
        (let pos' = str_find_char json (CHR ''['') pos in
         if pos' \<noteq> npos then
           (let end_pos = str_find_char json (CHR '']'') pos';
                seq_pos = str_find_char json (CHR ''"'') pos'
            in stop_sequences_loop json end_pos seq_pos [])
         else Some (Inr []))
      else Some (Inr []))\<close>

text \<open>
  The result is the value of the five reference parameters when the function returns,
  an error when it throws, \<open>None\<close> when it does not return. The first argument is the
  choice of the library that \<^verbatim>\<open>std::stof\<close> depends on.
\<close>

definition parse_options_json ::
  "(rat \<Rightarrow> bool) \<Rightarrow> string \<Rightarrow> (error + SamplingOptions) option" where
  \<open>parse_options_json underflow_reported json =
     (if json = [] then
        Some (Inr \<lparr>temperature = Finite (- 1), top_p = Finite (- 1), top_k = 0,
                    max_tokens = 100, stop_sequences = []\<rparr>)
      else
        (case float_option underflow_reported json ''"temperature"'' (Finite (- 1)) of
           Inl e \<Rightarrow> Some (Inl e)
         | Inr t \<Rightarrow>
            (case float_option underflow_reported json ''"top_p"'' (Finite (- 1)) of
               Inl e \<Rightarrow> Some (Inl e)
             | Inr p \<Rightarrow>
                (case size_option json ''"top_k"'' 0 of
                   Inl e \<Rightarrow> Some (Inl e)
                 | Inr k \<Rightarrow>
                    (case size_option json ''"max_tokens"'' 100 of
                       Inl e \<Rightarrow> Some (Inl e)
                     | Inr m \<Rightarrow>
                        (case parse_stop_sequences json of
                           None \<Rightarrow> None
                         | Some (Inl e) \<Rightarrow> Some (Inl e)
                         | Some (Inr stops) \<Rightarrow>
                             Some (Inr \<lparr>temperature = t, top_p = p, top_k = k,
                                         max_tokens = m, stop_sequences = stops\<rparr>)))))))\<close>

subsection \<open>\<^verbatim>\<open>format_tools_for_prompt\<close>\<close>





subsection \<open>\<^verbatim>\<open>parse_function_calls_from_response\<close>\<close>

definition FUNCTION_CALL_MARKER :: string where
  \<open>FUNCTION_CALL_MARKER = ''"function_call"''\<close>

lemma brace_scan_ge: "e \<le> fst (brace_scan s e brace_count)"
proof (induction s e brace_count rule: brace_scan.induct)
  case (1 s e brace_count)
  show ?case
  proof (cases "e < length s \<and> 0 < brace_count")
    case True
    define b' where "b' = (if s ! e = CHR ''{'' then brace_count + 1
                           else if s ! e = CHR ''}'' then brace_count - 1 else brace_count)"
    from "1.IH" [OF True] have "e + 1 \<le> fst (brace_scan s (e + 1) b')"
      by (simp add: b'_def)
    moreover from True have "brace_scan s e brace_count = brace_scan s (e + 1) b'"
      by (subst brace_scan.simps) (simp add: b'_def)
    ultimately show ?thesis by simp
  next
    case False
    then have "brace_scan s e brace_count = (e, brace_count)"
      by (subst brace_scan.simps) (simp only: if_False)
    then show ?thesis by simp
  qed
qed

text \<open>
  The text that a recognised fragment leaves as the regular response (lines 235 to
  239): the input before the marker, cut before its last opening brace if it has one.
\<close>

definition response_before :: "string \<Rightarrow> nat \<Rightarrow> error + string" where
  "response_before response_text marker_pos =
     (case substr response_text 0 marker_pos of
        Inl e \<Rightarrow> Inl e
      | Inr regular_response \<Rightarrow>
          (let last_bracket = str_rfind_char regular_response (CHR ''{'') in
           if last_bracket \<noteq> npos then substr regular_response 0 last_bracket
           else Inr regular_response))"

text \<open>
  The loop of lines 218 to 242, on the two reference parameters \<open>regular_response\<close> and
  \<open>function_calls\<close>.
\<close>

function parse_function_calls_loop ::
  "string \<Rightarrow> nat \<Rightarrow> string \<Rightarrow> string list \<Rightarrow> error + (string \<times> string list)" where
  "parse_function_calls_loop response_text search_pos regular_response function_calls =
     (if search_pos < length response_text then
        (let marker_pos = str_find response_text FUNCTION_CALL_MARKER search_pos in
         if marker_pos = npos then Inr (regular_response, function_calls)
         else
           (let json_start = str_find_char response_text (CHR ''{'') marker_pos in
            if json_start = npos then Inr (regular_response, function_calls)
            else
              (let json_end = fst (brace_scan response_text (json_start + 1) 1);
                   brace_count = snd (brace_scan response_text (json_start + 1) 1)
               in if brace_count = 0 then
                    (case substr response_text json_start (size_sub json_end json_start) of
                       Inl e \<Rightarrow> Inl e
                     | Inr fragment \<Rightarrow>
                        (case response_before response_text marker_pos of
                           Inl e \<Rightarrow> Inl e
                         | Inr regular_response' \<Rightarrow>
                             parse_function_calls_loop response_text json_end
                               regular_response' (function_calls @ [fragment])))
                  else parse_function_calls_loop response_text json_end
                         regular_response function_calls)))
      else Inr (regular_response, function_calls))"
  by pat_completeness auto
termination
proof (relation "measure (\<lambda>(response_text, search_pos, regular_response, function_calls).
                            length response_text - search_pos)", goal_cases)
  case 1
  show ?case by simp
next
  case (2 response_text search_pos regular_response function_calls marker_pos json_start
          json_end brace_count fragment regular_response')
  note m = str_find_found(1) [OF 2(2) [symmetric] 2(3)]
  note j = str_find_char_found(1) [OF 2(4) [symmetric] 2(5)]
  from brace_scan_ge [of "json_start + 1" response_text 1] 2(6)
  have "json_start < json_end" by simp
  with m j 2(1) show ?case by simp
next
  case (3 response_text search_pos regular_response function_calls marker_pos json_start
          json_end brace_count)
  note m = str_find_found(1) [OF 3(2) [symmetric] 3(3)]
  note j = str_find_char_found(1) [OF 3(4) [symmetric] 3(5)]
  from brace_scan_ge [of "json_start + 1" response_text 1] 3(6)
  have "json_start < json_end" by simp
  with m j 3(1) show ?case by simp
qed

declare parse_function_calls_loop.simps [simp del]

text \<open>The result is the pair of \<open>regular_response\<close> and \<open>function_calls\<close> on return.\<close>

definition parse_function_calls_from_response :: "string \<Rightarrow> error + (string \<times> string list)" where
  "parse_function_calls_from_response response_text =
     parse_function_calls_loop response_text 0 response_text []"

subsection \<open>\<^verbatim>\<open>construct_response_json\<close>\<close>

definition escape_char :: "char \<Rightarrow> string" where
  \<open>escape_char c =
     (if c = CHR ''"'' then [BSL, CHR ''"'']
      else if c = NL then [BSL, CHR ''n'']
      else if c = CHR 0x0D then [BSL, CHR ''r'']
      else if c = CHR 0x09 then [BSL, CHR ''t'']
      else if c = BSL then [BSL, BSL]
      else [c])\<close>

function function_calls_loop :: "string list \<Rightarrow> nat \<Rightarrow> string \<Rightarrow> string" where
  "function_calls_loop function_calls i out =
     (if i < length function_calls
      then function_calls_loop function_calls (i + 1)
             (out @ (if 0 < i then '','' else []) @ function_calls ! i)
      else out)"
  by pat_completeness auto
termination
  by (relation "measure (\<lambda>(function_calls, i, out). length function_calls - i)") auto

declare function_calls_loop.simps [simp del]

text \<open>
  The two token counts are \<^verbatim>\<open>size_t\<close> values, below \<open>2 ^ 64\<close>, and their sum is taken
  in \<^verbatim>\<open>size_t\<close>.
\<close>

definition construct_response_json ::
  "string \<Rightarrow> string list \<Rightarrow> fp \<Rightarrow> fp \<Rightarrow> fp \<Rightarrow> nat \<Rightarrow> nat \<Rightarrow> string" where
  \<open>construct_response_json regular_response function_calls time_to_first_token
       total_time_ms tokens_per_second prompt_tokens completion_tokens =
     ''{'' @
     ''"success":true,'' @
     ''"response":"'' @
     concat (map escape_char regular_response) @
     ''",'' @
     (if function_calls \<noteq> []
      then ''"function_calls":['' @ function_calls_loop function_calls 0 [] @ ''],''
      else []) @
     ''"time_to_first_token_ms":'' @ format_fixed2 time_to_first_token @ '','' @
     ''"total_time_ms":'' @ format_fixed2 total_time_ms @ '','' @
     ''"tokens_per_second":'' @ format_fixed2 tokens_per_second @ '','' @
     ''"prefill_tokens":'' @ to_string prompt_tokens @ '','' @
     ''"decode_tokens":'' @ to_string completion_tokens @ '','' @
     ''"total_tokens":'' @ to_string (size_add prompt_tokens completion_tokens) @
     ''}''\<close>

section \<open>Notions of the specification\<close>

text \<open>
  What the properties below speak of and the source does not compute: joined texts, JSON
  texts, the two passes over a content in the words of the specification, and the chat
  arrays on which the decoder is followed object by object.
\<close>

subsection \<open>Joined texts\<close>

text \<open>The texts \<open>xs\<close> with \<open>sep\<close> between each two of them.\<close>

fun join_with :: "string \<Rightarrow> string list \<Rightarrow> string" where
  "join_with sep [] = []"
| "join_with sep [x] = x"
| "join_with sep (x # y # ys) = x @ sep @ join_with sep (y # ys)"

subsection \<open>JSON texts\<close>

text \<open>
  A recogniser for the JSON grammar (RFC 8259), to state that a text is a JSON object.
  Each function returns the rest of the input behind what it accepts. The first
  argument of the mutually recursive functions bounds the depth of the recursion.
\<close>

definition json_ws :: "char \<Rightarrow> bool" where
  "json_ws c \<longleftrightarrow> c = CHR '' '' \<or> c = CHR 0x09 \<or> c = CHR 0x0A \<or> c = CHR 0x0D"

text \<open>The rest of a string behind its opening quote.\<close>

fun json_string_tail :: "string \<Rightarrow> string option" where
  "json_string_tail [] = None"
| "json_string_tail [c] = (if c = CHR 0x22 then Some [] else None)"
| "json_string_tail (c # e # cs) =
     (if c = CHR 0x22 then Some (e # cs)
      else if c = BSL then
        (if e \<in> set [CHR 0x22, BSL, CHR ''/'', CHR ''b'', CHR ''f'', CHR ''n'', CHR ''r'', CHR ''t'']
         then json_string_tail cs
         else if e = CHR ''u'' \<and> 4 \<le> length cs \<and> list_all is_hex_digit (take 4 cs)
         then json_string_tail (drop 4 cs)
         else None)
      else if (of_char c :: nat) < 32 then None
      else json_string_tail (e # cs))"

definition json_digits :: "string \<Rightarrow> string option" where
  "json_digits s = (if takeWhile is_digit s = [] then None else Some (dropWhile is_digit s))"

definition json_number :: "string \<Rightarrow> string option" where
  "json_number s =
     (let s1 = (case s of [] \<Rightarrow> [] | c # r \<Rightarrow> if c = CHR ''-'' then r else s);
          int_part = (case s1 of [] \<Rightarrow> None
                      | c # r \<Rightarrow> if c = CHR ''0'' then Some r else json_digits s1)
      in case int_part of
           None \<Rightarrow> None
         | Some s2 \<Rightarrow>
            (let frac = (case s2 of [] \<Rightarrow> Some s2
                         | c # r \<Rightarrow> if c = CHR ''.'' then json_digits r else Some s2)
             in case frac of
                  None \<Rightarrow> None
                | Some s3 \<Rightarrow>
                    (case s3 of [] \<Rightarrow> Some s3
                     | c # r \<Rightarrow>
                         if c = CHR ''e'' \<or> c = CHR ''E''
                         then json_digits (case r of [] \<Rightarrow> []
                                           | d # r' \<Rightarrow> if d = CHR ''+'' \<or> d = CHR ''-'' then r' else r)
                         else Some s3)))"

fun json_value :: "nat \<Rightarrow> string \<Rightarrow> string option"
  and json_members :: "nat \<Rightarrow> string \<Rightarrow> string option"
  and json_elements :: "nat \<Rightarrow> string \<Rightarrow> string option" where
  "json_value 0 s = None"
| "json_value (Suc n) s =
     (case dropWhile json_ws s of
        [] \<Rightarrow> None
      | c # cs \<Rightarrow>
          if c = CHR ''{'' then
            (case dropWhile json_ws cs of
               [] \<Rightarrow> None
             | d # ds \<Rightarrow> if d = CHR ''}'' then Some ds else json_members n cs)
          else if c = CHR ''['' then
            (case dropWhile json_ws cs of
               [] \<Rightarrow> None
             | d # ds \<Rightarrow> if d = CHR '']'' then Some ds else json_elements n cs)
          else if c = CHR 0x22 then json_string_tail cs
          else if starts_with (c # cs) ''true'' then Some (drop 4 (c # cs))
          else if starts_with (c # cs) ''false'' then Some (drop 5 (c # cs))
          else if starts_with (c # cs) ''null'' then Some (drop 4 (c # cs))
          else json_number (c # cs))"
| "json_members 0 s = None"
| "json_members (Suc n) s =
     (case dropWhile json_ws s of
        [] \<Rightarrow> None
      | c # cs \<Rightarrow>
          if c \<noteq> CHR 0x22 then None
          else
            (case json_string_tail cs of
               None \<Rightarrow> None
             | Some r \<Rightarrow>
                (case dropWhile json_ws r of
                   [] \<Rightarrow> None
                 | d # ds \<Rightarrow>
                     if d \<noteq> CHR '':'' then None
                     else
                       (case json_value n ds of
                          None \<Rightarrow> None
                        | Some r' \<Rightarrow>
                           (case dropWhile json_ws r' of
                              [] \<Rightarrow> None
                            | e # es \<Rightarrow>
                                if e = CHR '','' then json_members n es
                                else if e = CHR ''}'' then Some es
                                else None)))))"
| "json_elements 0 s = None"
| "json_elements (Suc n) s =
     (case json_value n s of
        None \<Rightarrow> None
      | Some r \<Rightarrow>
         (case dropWhile json_ws r of
            [] \<Rightarrow> None
          | e # es \<Rightarrow>
              if e = CHR '','' then json_elements n es
              else if e = CHR '']'' then Some es
              else None))"

text \<open>A text that is one JSON value, with white space around it at most.\<close>

definition is_json_text :: "string \<Rightarrow> bool" where
  "is_json_text s \<longleftrightarrow>
     (case json_value (Suc (length s)) s of
        None \<Rightarrow> False
      | Some r \<Rightarrow> dropWhile json_ws r = [])"

text \<open>A text that is one JSON object, with white space around it at most.\<close>

definition is_json_object :: "string \<Rightarrow> bool" where
  "is_json_object s \<longleftrightarrow>
     (case dropWhile json_ws s of [] \<Rightarrow> False | c # cs \<Rightarrow> c = CHR ''{'') \<and> is_json_text s"

subsection \<open>The two passes over a content\<close>

text \<open>
  One pass in the words of the specification: left to right, every occurrence of the
  two bytes backslash, \<open>c\<close> is replaced by \<open>r\<close>, and what has been replaced is not looked at
  again.
\<close>

fun replace_pass :: "char \<Rightarrow> char \<Rightarrow> string \<Rightarrow> string" where
  "replace_pass c r [] = []"
| "replace_pass c r [x] = [x]"
| "replace_pass c r (x # y # zs) =
     (if x = BSL \<and> y = c then r # replace_pass c r zs else x # replace_pass c r (y # zs))"

text \<open>First every backslash, \<open>n\<close> becomes a line break, then every backslash, quote a quote.\<close>

definition resolve_escapes :: "string \<Rightarrow> string" where
  \<open>resolve_escapes raw = replace_pass (CHR ''"'') (CHR ''"'') (replace_pass (CHR ''n'') NL raw)\<close>

text \<open>
  A content value whose closing quote the scan finds: every quote in it directly follows
  a backslash, and the byte before the closing quote is no backslash. \<open>prev\<close> is the byte
  before the text.
\<close>

fun quotes_escaped :: "char \<Rightarrow> string \<Rightarrow> bool" where
  "quotes_escaped prev [] \<longleftrightarrow> prev \<noteq> BSL"
| "quotes_escaped prev (c # cs) \<longleftrightarrow> (c = CHR 0x22 \<longrightarrow> prev = BSL) \<and> quotes_escaped c cs"

subsection \<open>Chat arrays\<close>

text \<open>
  One object of a chat array, as the decoder scans it: an opening brace, the key
  \<^verbatim>\<open>"role"\<close>, the quoted role, the key \<^verbatim>\<open>"content"\<close>, the quoted content, and the text
  between these and behind them, up to the next opening brace.
\<close>

record chat_object =
  before_role :: string
  before_role_value :: string
  role_value :: string
  before_content :: string
  before_content_value :: string
  content_value :: string
  after_content :: string

definition object_text :: "chat_object \<Rightarrow> string" where
  \<open>object_text x =
     ''{'' @ before_role x @ ''"role"'' @ before_role_value x @ ''"'' @ role_value x @ ''"'' @
     before_content x @ ''"content"'' @ before_content_value x @ ''"'' @ content_value x @ ''"'' @
     after_content x\<close>

text \<open>
  The parts between the tokens hold no quote, the part behind the role does not begin
  with the letter \<open>c\<close>, the part behind the content holds no opening brace, the role holds
  no quote, and the closing quote of the content is the first quote that does not follow a
  backslash.
\<close>

definition well_formed_object :: "chat_object \<Rightarrow> bool" where
  \<open>well_formed_object x \<longleftrightarrow>
     CHR ''"'' \<notin> set (before_role x) \<and>
     CHR ''"'' \<notin> set (before_role_value x) \<and>
     CHR ''"'' \<notin> set (role_value x) \<and>
     CHR ''"'' \<notin> set (before_content x) \<and>
     (before_content x = [] \<or> hd (before_content x) \<noteq> CHR ''c'') \<and>
     CHR ''"'' \<notin> set (before_content_value x) \<and>
     quotes_escaped (CHR ''"'') (content_value x) \<and>
     CHR ''{'' \<notin> set (after_content x)\<close>

text \<open>A chat array: a text without bracket, the bracket, a text without brace, the objects.\<close>

definition chat_text :: "string \<Rightarrow> string \<Rightarrow> chat_object list \<Rightarrow> string" where
  "chat_text front gap xs = front @ ''['' @ gap @ concat (map object_text xs)"

definition decoded :: "chat_object \<Rightarrow> ChatMessage" where
  "decoded x = \<lparr>role = role_value x, content = resolve_escapes (content_value x)\<rparr>"

subsection \<open>Option texts\<close>

text \<open>
  The text that follows a key: everything behind the first colon behind the first
  occurrence of the key, the whole text when no colon follows the key. \<open>None\<close> when the
  key does not occur.
\<close>

definition value_text :: "string \<Rightarrow> string \<Rightarrow> string option" where
  "value_text json key =
     (let k = str_find json key 0; c = str_find_char json (CHR '':'') k
      in if k = npos then None else if c = npos then Some json else Some (drop (c + 1) json))"

text \<open>
  The four scalar values that a text determines: for each key the default when the key
  does not occur, and otherwise the number that the text following the key converts to.
\<close>

definition scalar_values :: "(rat \<Rightarrow> bool) \<Rightarrow> string \<Rightarrow> fp \<Rightarrow> fp \<Rightarrow> nat \<Rightarrow> nat \<Rightarrow> bool" where
  \<open>scalar_values underflow_reported json t p k m \<longleftrightarrow>
     (case value_text json ''"temperature"'' of
        None \<Rightarrow> t = Finite (- 1) | Some x \<Rightarrow> stof underflow_reported x = Inr t) \<and>
     (case value_text json ''"top_p"'' of
        None \<Rightarrow> p = Finite (- 1) | Some x \<Rightarrow> stof underflow_reported x = Inr p) \<and>
     (case value_text json ''"top_k"'' of
        None \<Rightarrow> k = 0 | Some x \<Rightarrow> stoul x = Inr k) \<and>
     (case value_text json ''"max_tokens"'' of
        None \<Rightarrow> m = 100 | Some x \<Rightarrow> stoul x = Inr m)\<close>

text \<open>
  An array of stop sequences: each entry is a quoted text behind a separating text (white
  space, a comma); neither holds a quote or a closing bracket.
\<close>

definition stop_item :: "string \<times> string \<Rightarrow> string" where
  \<open>stop_item x = fst x @ ''"'' @ snd x @ ''"''\<close>

definition stop_entry :: "string \<times> string \<Rightarrow> bool" where
  \<open>stop_entry x \<longleftrightarrow>
     CHR ''"'' \<notin> set (fst x) \<and> CHR '']'' \<notin> set (fst x) \<and>
     CHR ''"'' \<notin> set (snd x) \<and> CHR '']'' \<notin> set (snd x)\<close>

text \<open>
  A text with such an array: the bracket that follows \<open>front\<close> is the first one behind the
  key \<^verbatim>\<open>"stop_sequences"\<close>; behind the entries a text without quote or bracket, and the
  closing bracket.
\<close>

definition stop_array_text ::
  "string \<Rightarrow> string \<Rightarrow> (string \<times> string) list \<Rightarrow> string \<Rightarrow> string \<Rightarrow> bool" where
  \<open>stop_array_text json front items closing behind \<longleftrightarrow>
     json = front @ ''['' @ concat (map stop_item items) @ closing @ '']'' @ behind \<and>
     str_find json ''"stop_sequences"'' 0 \<noteq> npos \<and>
     str_find_char json (CHR ''['') (str_find json ''"stop_sequences"'' 0) = length front \<and>
     list_all stop_entry items \<and>
     CHR ''"'' \<notin> set closing \<and> CHR '']'' \<notin> set closing\<close>

section \<open>Properties\<close>

subsection \<open>Evaluation on concrete texts\<close>

lemmas string_eval =
  str_find_def str_find_char_def str_rfind_char_def npos_def size_add_def size_sub_def
  substr_def str_replace_def str_at_def Let_def

lemmas messages_eval =
  parse_messages_json_def parse_messages_loop.simps content_scan.simps unescape_content_def
  replace_escape.simps

lemmas tools_eval =
  parse_tools_json_def parse_tools_loop.simps tool_name_def tool_description_def
  tool_parameters_def brace_scan.simps

lemmas number_eval =
  stoul_def stof_def magnitude_def exponent_part_def split_sign_def numeral_value_def
  digit_value_def is_digit_def is_hex_digit_def is_space_def to_lower_def pow_int_def

lemma floor_divide_numeral: "\<lfloor>numeral a / numeral b :: rat\<rfloor> = numeral a div numeral b"
  using floor_divide_of_int_eq [of "numeral a" "numeral b", where ?'a = rat] by simp

lemmas float_eval =
  round_to_float_def binade.simps round_half_even_def floor_divide_numeral

lemmas options_eval =
  parse_options_json_def float_option_def size_option_def option_text_def
  parse_stop_sequences_def stop_sequences_loop.simps

lemmas calls_eval =
  parse_function_calls_from_response_def parse_function_calls_loop.simps
  FUNCTION_CALL_MARKER_def response_before_def brace_scan.simps

subsection \<open>Searching\<close>

lemma first_match_char_absent: "c \<notin> set xs \<Longrightarrow> first_match [c] xs = None"
  by (induction xs) auto

lemma str_find_char_absent:
  assumes "c \<notin> set s"
  shows "str_find_char s c pos = npos"
proof -
  from assms have "c \<notin> set (drop pos s)"
    by (auto dest: in_set_dropD)
  then have "first_match [c] (drop pos s) = None"
    by (rule first_match_char_absent)
  then show ?thesis
    by (simp add: str_find_char_def str_find_def)
qed

lemma first_match_Nil: "pat \<noteq> [] \<Longrightarrow> first_match pat [] = None"
  by simp

lemma str_find_from_npos: "str_find s pat npos = npos"
  by (simp add: str_find_def)

lemma size_add_1_le: "size_add k 1 \<le> k + 1"
  by (simp add: size_add_def)

text \<open>
  The start of a quoted value is \<open>0\<close> or lies behind a quote that was found, so taking
  the value does not throw.
\<close>

lemma substr_after_find:
  "\<exists>t. substr s (size_add (str_find_char s c i) 1) n = Inr t"
proof (cases "str_find_char s c i = npos")
  case True
  then show ?thesis by (simp add: substr_def size_add_def npos_def)
next
  case False
  from str_find_char_found(2) [OF refl False] size_add_1_le [of "str_find_char s c i"]
  have "size_add (str_find_char s c i) 1 \<le> length s" by simp
  then show ?thesis by (simp add: substr_def)
qed

subsection \<open>Inputs on which a decoder reads out of bounds or does not return\<close>

lemma messages_cycle:
  assumes \<open>parse_messages_loop json pos messages = Some y\<close>
  shows \<open>\<not> (json = '' "[{"role":"x","content"'' \<and> pos = 3)\<close>
proof (rule parse_messages_loop.raw_induct
    [where P = \<open>\<lambda>json pos messages y. \<not> (json = '' "[{"role":"x","content"'' \<and> pos = 3)\<close>,
      OF _ assms], goal_cases)
  case (1 loop json pos messages y)
  show ?case
  proof
    assume a: \<open>json = '' "[{"role":"x","content"'' \<and> pos = 3\<close>
    with 1(2) have \<open>loop json 3 (messages @ [\<lparr>role = ''x'', content = '' ''\<rparr>]) = Some y\<close>
      by (simp add: content_scan.simps unescape_content_def replace_escape.simps string_eval
            numeral_3_eq_3)
    from 1(1) [OF this] a show False by simp
  qed
qed

lemma messages_diverge: \<open>parse_messages_json '' "[{"role":"x","content"'' = None\<close>
proof (cases \<open>parse_messages_json '' "[{"role":"x","content"''\<close>)
  case None
  then show ?thesis .
next
  case (Some y)
  then have \<open>parse_messages_loop '' "[{"role":"x","content"'' 3 [] = Some y\<close>
    by (simp add: parse_messages_json_def string_eval numeral_3_eq_3)
  from messages_cycle [OF this] show ?thesis by simp
qed

lemma stops_cycle:
  assumes \<open>stop_sequences_loop json end_pos seq_pos stops = Some y\<close>
  shows \<open>\<not> (json = ''"stop_sequences"["'' \<and> end_pos = npos \<and> (seq_pos = 17 \<or> seq_pos = 0))\<close>
proof (rule stop_sequences_loop.raw_induct
    [where P = \<open>\<lambda>json end_pos seq_pos stops y.
        \<not> (json = ''"stop_sequences"["'' \<and> end_pos = npos \<and> (seq_pos = 17 \<or> seq_pos = 0))\<close>,
      OF _ assms], goal_cases)
  case (1 loop json end_pos seq_pos stops y)
  note IH = 1(1) and body = 1(2)
  show ?case
  proof
    assume a: \<open>json = ''"stop_sequences"["'' \<and> end_pos = npos \<and> (seq_pos = 17 \<or> seq_pos = 0)\<close>
    then consider (quote) "seq_pos = 17" | (start) "seq_pos = 0" by blast
    then show False
    proof cases
      case quote
      with a body have \<open>loop json npos 0 stops = Some y\<close>
        by (simp add: string_eval)
      from IH [OF this] a show ?thesis by simp
    next
      case start
      with a body have \<open>loop json npos 17 (stops @ [''stop_sequences'']) = Some y\<close>
        by (simp add: string_eval)
      from IH [OF this] a show ?thesis by simp
    qed
  qed
qed

lemma options_diverge: \<open>parse_options_json u ''"stop_sequences"["'' = None\<close>
proof (cases \<open>parse_stop_sequences ''"stop_sequences"["''\<close>)
  case None
  then show ?thesis
    by (simp add: parse_options_json_def float_option_def size_option_def option_text_def
        string_eval)
next
  case (Some y)
  moreover have "Suc (Suc (Suc (Suc (Suc (Suc (Suc (Suc (Suc (Suc (Suc (Suc (Suc (Suc (Suc
    (Suc (Suc 0)))))))))))))))) = 17"
    by simp
  ultimately have \<open>stop_sequences_loop ''"stop_sequences"["'' npos 17 [] = Some y\<close>
    by (simp add: parse_stop_sequences_def string_eval)
  from stops_cycle [OF this] show ?thesis by simp
qed

text \<open>
  Claim C1. The claim is that on every input the four decoders return, that every
  scanning loop is bounded by the length of the input and that every index used to read
  the input is in bounds. The code does otherwise on three texts. On the first,
  \<^verbatim>\<open>"content"\<close> is the last quoted text, the start of the content wraps from \<open>npos\<close> to \<open>0\<close>,
  the first quote of the text is at index \<open>0\<close>, and the byte before it is read at index
  \<open>2 ^ 64 - 1\<close>. On the second, which has a space in front, the scan for the next
  brace restarts before the object just read, and the loop of \<^verbatim>\<open>parse_messages_json\<close>
  does not end. On the third, the text has no closing bracket and no closing quote, the
  search for the next quote restarts at \<open>0\<close>, and the loop of \<^verbatim>\<open>parse_options_json\<close> does
  not end.
\<close>

theorem decoders_out_of_bounds_and_divergence:
  \<open>parse_messages_json ''"[{"role":"x","content"'' = Some (Inl Out_of_bounds_read)
   \<and> parse_messages_json '' "[{"role":"x","content"'' = None
   \<and> parse_options_json underflow_reported ''"stop_sequences"["'' = None\<close>
proof (intro conjI)
  show \<open>parse_messages_json ''"[{"role":"x","content"'' = Some (Inl Out_of_bounds_read)\<close>
    by (simp add: messages_eval string_eval)
  show \<open>parse_messages_json '' "[{"role":"x","content"'' = None\<close>
    by (rule messages_diverge)
  show \<open>parse_options_json underflow_reported ''"stop_sequences"["'' = None\<close>
    by (rule options_diverge)
qed

subsection \<open>Function calls in a response\<close>

text \<open>
  Claim C2. On the example of the specification the decoder extracts the one fragment
  and leaves \<^verbatim>\<open>Hello there. \<close> as the regular response. The claim that, on every input,
  the regular response is the input with all recognised fragments and their wrapping
  objects removed fails on a response with two calls: both fragments are appended, in
  order of appearance, and the regular response is cut before the wrapping brace of the
  last one only, so it still holds the first call.
\<close>

theorem function_calls_example_and_two_calls:
  \<open>parse_function_calls_from_response
      ''Hello there. {"function_call": {"name":"lookup","arguments":{"q":"weather"}}}''
     = Inr (''Hello there. '', [''{"name":"lookup","arguments":{"q":"weather"}}''])
   \<and> parse_function_calls_from_response
      ''A {"function_call": {"a":1}} B {"function_call": {"b":2}}''
     = Inr (''A {"function_call": {"a":1}} B '', [''{"a":1}'', ''{"b":2}''])\<close>
  by (simp add: calls_eval string_eval)

subsection \<open>Texts without an array\<close>

text \<open>
  Claim C3. On a text without an opening bracket, \<^verbatim>\<open>parse_messages_json\<close> throws the
  runtime error \<^verbatim>\<open>Invalid JSON: expected array\<close>, and \<^verbatim>\<open>parse_tools_json\<close> returns the
  empty sequence, as it does on the empty text; \<^verbatim>\<open>parse_messages_json\<close> on \<^verbatim>\<open>[]\<close> returns
  the empty sequence.
\<close>

theorem no_array_strict_and_lenient:
  \<open>(\<forall>json. CHR ''['' \<notin> set json \<longrightarrow>
       parse_messages_json json = Some (Inl (Runtime_error ''Invalid JSON: expected array''))
       \<and> parse_tools_json json = Inr [])
   \<and> parse_tools_json [] = Inr []
   \<and> parse_messages_json ''[]'' = Some (Inr [])\<close>
proof (intro conjI allI impI)
  fix json :: string
  assume a: \<open>CHR ''['' \<notin> set json\<close>
  show \<open>parse_messages_json json = Some (Inl (Runtime_error ''Invalid JSON: expected array''))\<close>
    by (simp add: parse_messages_json_def str_find_char_absent [OF a])
  show \<open>parse_tools_json json = Inr []\<close>
    by (simp add: parse_tools_json_def str_find_char_absent [OF a])
next
  show \<open>parse_tools_json [] = Inr []\<close>
    by (simp add: parse_tools_json_def)
  show \<open>parse_messages_json ''[]'' = Some (Inr [])\<close>
    by (simp add: messages_eval string_eval)
qed

theorem no_array_strict_and_lenient_witness:
  \<open>CHR ''['' \<notin> set ''{"role":"user","content":"hi"}''
   \<and> parse_messages_json ''{"role":"user","content":"hi"}''
       = Some (Inl (Runtime_error ''Invalid JSON: expected array''))
   \<and> parse_tools_json ''{"role":"user","content":"hi"}'' = Inr []\<close>
proof -
  have h: \<open>CHR ''['' \<notin> set ''{"role":"user","content":"hi"}''\<close>
    by simp
  from no_array_strict_and_lenient h show ?thesis
    by blast
qed

subsection \<open>The error response\<close>

text \<open>
  Claim C9, as stated, has the overflow signalled to the caller through a returned
  status. The function returns \<^verbatim>\<open>void\<close>: a call whose text does not fit and a call whose
  text fits return the same value, though the first leaves the destination as it was and
  the second writes it.
\<close>

theorem error_response_returns_no_status:
  \<open>map_sum id fst (handle_error_response ''boom'' (Some (replicate 64 (CHR ''x''))) 8)
     = map_sum id fst (handle_error_response ''boom'' (Some (replicate 64 (CHR ''x''))) 64)
   \<and> map_sum id snd (handle_error_response ''boom'' (Some (replicate 64 (CHR ''x''))) 8)
     = Inr (Some (replicate 64 (CHR ''x'')))
   \<and> map_sum id snd (handle_error_response ''boom'' (Some (replicate 64 (CHR ''x''))) 64)
     \<noteq> Inr (Some (replicate 64 (CHR ''x'')))\<close>
  by (simp add: handle_error_response_def error_json_def sanitize_char_def strcpy_def Let_def
      eval_nat_numeral)

text \<open>
  Claim C9, amended. When the buffer pointer is null, or the error text is not shorter
  than \<open>buffer_size\<close>, the call returns normally and the destination is as it was before
  the call: nothing is written, in part or in whole. The function returns no status.
\<close>

theorem error_response_overflow_unmodified:
  \<open>response_buffer = None \<or> \<not> length (error_json error_message) < buffer_size \<Longrightarrow>
   handle_error_response error_message response_buffer buffer_size = Inr ((), response_buffer)\<close>
  by (auto simp: handle_error_response_def split: option.splits)

theorem error_response_overflow_unmodified_witness:
  \<open>\<not> length (error_json ''boom'') < 8
   \<and> handle_error_response ''boom'' (Some (replicate 64 (CHR ''x''))) 8
       = Inr ((), Some (replicate 64 (CHR ''x'')))\<close>
proof -
  have h: \<open>\<not> length (error_json ''boom'') < 8\<close>
    by (simp add: error_json_def)
  from error_response_overflow_unmodified [of \<open>Some (replicate 64 (CHR ''x''))\<close> \<open>''boom''\<close> 8] h
  show ?thesis by simp
qed

subsection \<open>Tool records\<close>

lemma tool_name_ok: "\<exists>n. tool_name json name_pos = Inr n"
  using substr_after_find by (simp add: tool_name_def Let_def)

lemma tool_description_ok: "\<exists>d. tool_description json pos = Inr d"
  using substr_after_find by (simp add: tool_description_def Let_def)

lemma substr_at_found:
  assumes "str_find_char json c i \<noteq> npos"
  shows "\<exists>t. substr json (str_find_char json c i) n = Inr t"
  using str_find_char_found(2) [OF refl assms] by (simp add: substr_def)

lemma tool_parameters_ok: "\<exists>ps. tool_parameters json pos = Inr ps"
proof (cases \<open>str_find json ''"parameters"'' pos = npos\<close>)
  case True
  then show ?thesis by (simp add: tool_parameters_def)
next
  case False
  define params_start where
    \<open>params_start = str_find_char json (CHR ''{'') (str_find json ''"parameters"'' pos)\<close>
  show ?thesis
  proof (cases "params_start = npos")
    case True
    with False show ?thesis by (simp add: tool_parameters_def params_start_def)
  next
    case start: False
    from substr_at_found [OF start [unfolded params_start_def]]
    obtain t where \<open>substr json params_start
        (size_sub (fst (brace_scan json (params_start + 1) 1)) params_start) = Inr t\<close>
      unfolding params_start_def by blast
    with False start show ?thesis
      by (simp add: tool_parameters_def params_start_def Let_def)
  qed
qed

lemma parse_tools_loop_step:
  assumes "pos \<noteq> npos"
  shows \<open>\<exists>n d ps.
     tool_name json (str_find json ''"name"'' pos) = Inr n \<and>
     tool_description json pos = Inr d \<and>
     tool_parameters json pos = Inr ps \<and>
     parse_tools_loop json pos tools =
       parse_tools_loop json (str_find json ''"function"'' (str_find json ''"name"'' pos))
         (tools @ [\<lparr>name = n, description = d, parameters = ps\<rparr>])\<close>
proof -
  obtain n d ps where f:
    \<open>tool_name json (str_find json ''"name"'' pos) = Inr n\<close>
    "tool_description json pos = Inr d" "tool_parameters json pos = Inr ps"
    using tool_name_ok tool_description_ok tool_parameters_ok by metis
  with assms have \<open>parse_tools_loop json pos tools =
     parse_tools_loop json (str_find json ''"function"'' (str_find json ''"name"'' pos))
       (tools @ [\<lparr>name = n, description = d, parameters = ps\<rparr>])\<close>
    by (subst parse_tools_loop.simps) simp
  with f show ?thesis by blast
qed

lemma parse_tools_loop_no_name:
  assumes "pos \<noteq> npos" and \<open>str_find json ''"name"'' pos = npos\<close>
  shows "\<exists>d ps.
     tool_description json pos = Inr d \<and>
     tool_parameters json pos = Inr ps \<and>
     parse_tools_loop json pos tools =
       Inr (tools @ [\<lparr>name = [], description = d, parameters = ps\<rparr>])"
proof -
  obtain d ps where f:
    "tool_description json pos = Inr d" "tool_parameters json pos = Inr ps"
    using tool_description_ok tool_parameters_ok by metis
  with assms have \<open>parse_tools_loop json pos tools =
     parse_tools_loop json npos (tools @ [\<lparr>name = [], description = d, parameters = ps\<rparr>])\<close>
    by (subst parse_tools_loop.simps) (simp add: tool_name_def str_find_from_npos)
  then have "parse_tools_loop json pos tools =
       Inr (tools @ [\<lparr>name = [], description = d, parameters = ps\<rparr>])"
    by (subst (asm) (2) parse_tools_loop.simps) auto
  with f show ?thesis by blast
qed

text \<open>
  Claim C10. The name, the description and the parameters of a record are searched from
  the \<^verbatim>\<open>"function"\<close> marker on, each on its own and without regard to the end of the
  object, and the next marker is searched from the position where the \<^verbatim>\<open>"name"\<close> key was
  found. Every round of the loop, at a marker at \<open>pos\<close>, appends one record and continues
  from that position: the name of the record is the one read at the first \<^verbatim>\<open>"name"\<close> key
  behind \<open>pos\<close>, its description and its parameters are the ones read by the searches
  from \<open>pos\<close>. When no \<^verbatim>\<open>"name"\<close> occurs behind a marker, the loop appends that record,
  with an empty name, and ends. On a text of two objects of which the first has neither
  name nor description nor parameters, the decoder returns one record, with the name,
  the description and the schema of the second object.
\<close>

theorem tool_fields_searched_past_object_end:
  \<open>(\<forall>json pos tools. pos \<noteq> npos \<longrightarrow>
      (\<exists>n d ps.
         tool_name json (str_find json ''"name"'' pos) = Inr n \<and>
         tool_description json pos = Inr d \<and>
         tool_parameters json pos = Inr ps \<and>
         parse_tools_loop json pos tools =
           parse_tools_loop json (str_find json ''"function"'' (str_find json ''"name"'' pos))
             (tools @ [\<lparr>name = n, description = d, parameters = ps\<rparr>])))
   \<and> (\<forall>json pos tools. pos \<noteq> npos \<and> str_find json ''"name"'' pos = npos \<longrightarrow>
      (\<exists>d ps.
         tool_description json pos = Inr d \<and>
         tool_parameters json pos = Inr ps \<and>
         parse_tools_loop json pos tools =
           Inr (tools @ [\<lparr>name = [], description = d, parameters = ps\<rparr>])))
   \<and> parse_tools_json
        ''[{"type":"function","function":{}},{"type":"function","function":{"name":"g","description":"b","parameters":{"k":{}}}}]''
      = Inr [\<lparr>name = ''g'', description = ''b'', parameters = [''schema'' \<mapsto> ''{"k":{}}'']\<rparr>]\<close>
proof (intro conjI allI impI)
  fix json pos and tools :: "ToolFunction list"
  assume "pos \<noteq> npos"
  then show \<open>\<exists>n d ps.
         tool_name json (str_find json ''"name"'' pos) = Inr n \<and>
         tool_description json pos = Inr d \<and>
         tool_parameters json pos = Inr ps \<and>
         parse_tools_loop json pos tools =
           parse_tools_loop json (str_find json ''"function"'' (str_find json ''"name"'' pos))
             (tools @ [\<lparr>name = n, description = d, parameters = ps\<rparr>])\<close>
    by (rule parse_tools_loop_step)
next
  fix json pos and tools :: "ToolFunction list"
  assume \<open>pos \<noteq> npos \<and> str_find json ''"name"'' pos = npos\<close>
  then show "\<exists>d ps.
         tool_description json pos = Inr d \<and>
         tool_parameters json pos = Inr ps \<and>
         parse_tools_loop json pos tools =
           Inr (tools @ [\<lparr>name = [], description = d, parameters = ps\<rparr>])"
    using parse_tools_loop_no_name by blast
next
  show \<open>parse_tools_json
        ''[{"type":"function","function":{}},{"type":"function","function":{"name":"g","description":"b","parameters":{"k":{}}}}]''
      = Inr [\<lparr>name = ''g'', description = ''b'', parameters = [''schema'' \<mapsto> ''{"k":{}}'']\<rparr>]\<close>
    by (simp add: tools_eval string_eval)
qed

theorem tool_fields_searched_past_object_end_witness:
  \<open>(1 :: nat) \<noteq> npos
   \<and> str_find ''["function":{"description":"d","name":"n"}]'' ''"name"'' 1 = 31
   \<and> tool_name ''["function":{"description":"d","name":"n"}]'' 31 = Inr ''n''
   \<and> tool_description ''["function":{"description":"d","name":"n"}]'' 1 = Inr ''d''
   \<and> tool_description ''["function":{"description":"d","name":"n"}]'' 31 = Inr []
   \<and> tool_parameters ''["function":{"description":"d","name":"n"}]'' 1 = Inr Map.empty
   \<and> str_find ''["function":{"description":"d","name":"n"}]'' ''"function"'' 31 = npos
   \<and> parse_tools_loop ''["function":{"description":"d","name":"n"}]'' 1 [] =
       Inr [\<lparr>name = ''n'', description = ''d'', parameters = Map.empty\<rparr>]\<close>
proof -
  have f: \<open>str_find ''["function":{"description":"d","name":"n"}]'' ''"function"'' 31 = npos\<close>
    by (simp add: string_eval)
  have e: "parse_tools_loop json npos tools = Inr tools" for json tools
    by (subst parse_tools_loop.simps) simp
  have p: "(1 :: nat) \<noteq> npos"
    by (simp add: npos_def)
  have k: \<open>str_find ''["function":{"description":"d","name":"n"}]'' ''"name"'' 1 = 31\<close>
    by (simp add: string_eval)
  have n: \<open>tool_name ''["function":{"description":"d","name":"n"}]'' 31 = Inr ''n''\<close>
    by (simp add: tool_name_def string_eval)
  have d: \<open>tool_description ''["function":{"description":"d","name":"n"}]'' 1 = Inr ''d''\<close>
    \<open>tool_description ''["function":{"description":"d","name":"n"}]'' 31 = Inr []\<close>
    by (simp_all add: tool_description_def string_eval)
  have ps: \<open>tool_parameters ''["function":{"description":"d","name":"n"}]'' 1 = Inr Map.empty\<close>
    by (simp add: tool_parameters_def string_eval)
  from tool_fields_searched_past_object_end [THEN conjunct1, rule_format, OF p,
      of \<open>''["function":{"description":"d","name":"n"}]''\<close> "[]"]
  show ?thesis
    unfolding k n d ps f e using p k n d ps f by auto
qed

subsection \<open>The response object\<close>

lemma join_with_snoc:
  "xs \<noteq> [] \<Longrightarrow> join_with sep (xs @ [x]) = join_with sep xs @ sep @ x"
  by (induction sep xs rule: join_with.induct) auto

lemma function_calls_loop_join:
  assumes "i \<le> length function_calls"
  shows "function_calls_loop function_calls i (join_with '','' (take i function_calls))
    = join_with '','' function_calls"
  using assms
proof (induction "length function_calls - i" arbitrary: i)
  case 0
  then show ?case by (subst function_calls_loop.simps) simp
next
  case (Suc d)
  then have lt: "i < length function_calls" by simp
  have "join_with '','' (take (i + 1) function_calls)
      = join_with '','' (take i function_calls) @ (if 0 < i then '','' else []) @ function_calls ! i"
  proof (cases "i = 0")
    case True
    with lt show ?thesis by (cases function_calls) auto
  next
    case False
    with lt have "take i function_calls \<noteq> []" by auto
    with lt False show ?thesis
      by (simp add: take_Suc_conv_app_nth join_with_snoc)
  qed
  moreover from Suc(2) lt have "d = length function_calls - (i + 1)" by simp
  from Suc(1) [OF this] lt
  have "function_calls_loop function_calls (i + 1) (join_with '','' (take (i + 1) function_calls))
    = join_with '','' function_calls" by simp
  ultimately show ?case using lt
    by (subst function_calls_loop.simps) simp
qed

lemma is_digit_digit_char: "d < 10 \<Longrightarrow> is_digit (digit_char d)"
  by (simp add: is_digit_def digit_char_def)

lemma digit_char_not_point: "d < 10 \<Longrightarrow> digit_char d \<noteq> CHR ''.''"
proof
  assume "d < 10" and "digit_char d = CHR ''.''"
  then have "(of_char (digit_char d) :: nat) = of_char (CHR ''.'')" by simp
  with \<open>d < 10\<close> show False by (simp add: digit_char_def)
qed

lemma to_string_digits: "c \<in> set (to_string n) \<Longrightarrow> is_digit c"
proof (induction n rule: to_string.induct)
  case (1 n)
  show ?case
  proof (cases "n < 10")
    case True
    with "1.prems" show ?thesis
      by (subst (asm) to_string.simps) (simp add: is_digit_digit_char)
  next
    case False
    with "1.prems" "1.IH" show ?thesis
      by (subst (asm) to_string.simps) (auto simp: is_digit_digit_char)
  qed
qed

lemma round_half_even_near:
  assumes "0 \<le> x" and "of_nat n - 1 / 2 < x" and "x < of_nat n + 1 / 2"
  shows "round_half_even x = n"
proof (cases "of_nat n \<le> x")
  case True
  with assms have "\<lfloor>x\<rfloor> = int n" by (intro floor_unique) auto
  with assms True show ?thesis by (simp add: round_half_even_def Let_def)
next
  case False
  with assms have pos: "0 < n" by (cases n) auto
  with False assms have "\<lfloor>x\<rfloor> = int n - 1" by (intro floor_unique) auto
  with pos have f: "nat \<lfloor>x\<rfloor> = n - 1" by simp
  from pos have "(of_nat (n - 1) :: rat) = of_nat n - 1" by (simp add: of_nat_diff)
  with assms False f show ?thesis by (simp add: round_half_even_def Let_def)
qed

lemma format_fixed2_near:
  assumes "0 \<le> r" and "of_nat n - 1 / 2 < r * 100" and "r * 100 < of_nat n + 1 / 2"
  shows "format_fixed2 (Finite r)
    = to_string (n div 100) @ ''.'' @ [digit_char (n div 10 mod 10), digit_char (n mod 10)]"
proof -
  from assms(1) have "0 \<le> r * 100" by simp
  from round_half_even_near [OF this assms(2,3)] assms(1) show ?thesis
    by (simp add: format_fixed2_def)
qed

lemma digit_char_eval:
  "digit_char 0 = CHR ''0''" "digit_char 1 = CHR ''1''" "digit_char 2 = CHR ''2''"
  "digit_char 3 = CHR ''3''" "digit_char 4 = CHR ''4''" "digit_char 5 = CHR ''5''"
  "digit_char 6 = CHR ''6''" "digit_char 7 = CHR ''7''" "digit_char 8 = CHR ''8''"
  "digit_char 9 = CHR ''9''" "digit_char (Suc 0) = CHR ''1''"
  by code_simp+

lemmas to_string_eval = to_string.simps digit_char_eval

text \<open>
  Claim C8, as stated, has each of the three times written with exactly two decimal
  digits. The function takes every \<^verbatim>\<open>double\<close> and has no guard: for a not-a-number (a
  quotient \<open>0 / 0\<close>) and for an infinity (a rate over a duration of \<open>0\<close>) the stream writes
  \<^verbatim>\<open>nan\<close> and \<^verbatim>\<open>inf\<close>, without a digit.
\<close>

theorem response_json_metric_without_digits:
  \<open>construct_response_json ''ok'' [] NaN (Finite 100) (Infinity False) 5 7 =
     ''{"success":true,"response":"ok","time_to_first_token_ms":nan,"total_time_ms":100.00,"tokens_per_second":inf,"prefill_tokens":5,"decode_tokens":7,"total_tokens":12}''\<close>
proof -
  have b2: "(0 :: rat) \<le> 100" "of_nat 10000 - 1 / 2 < (100 :: rat) * 100"
    "(100 :: rat) * 100 < of_nat 10000 + 1 / 2"
    by simp_all
  have "format_fixed2 (Finite 100) = ''100.00''"
    by (simp add: format_fixed2_near [OF b2] to_string_eval)
  moreover have "format_fixed2 NaN = ''nan''" "format_fixed2 (Infinity False) = ''inf''"
    by (simp_all add: format_fixed2_def)
  ultimately show ?thesis
    by (simp add: construct_response_json_def escape_char_def size_add_def to_string_eval)
qed

text \<open>
  Claim C8, amended. The object is the fixed members in their order; the member
  \<^verbatim>\<open>function_calls\<close> is there only for a non-empty list, its entries as they are with
  commas between them; the three times are written in fixed-point notation: for a finite
  value an optional sign, digits, a point and exactly two digits, for a not-a-number
  \<^verbatim>\<open>nan\<close>, for an infinity \<^verbatim>\<open>inf\<close> or \<^verbatim>\<open>-inf\<close>; \<^verbatim>\<open>total_tokens\<close> is the sum of the two
  counts, taken in \<^verbatim>\<open>size_t\<close>. On the example of the specification, for every \<^verbatim>\<open>double\<close>
  within a millionth of \<open>12.3456\<close> and of \<open>9.999\<close>, the object has
  \<^verbatim>\<open>"time_to_first_token_ms":12.35\<close>, no \<^verbatim>\<open>function_calls\<close> and \<^verbatim>\<open>"total_tokens":12\<close>.
\<close>

theorem response_json_layout:
  \<open>(\<forall>regular_response function_calls time_to_first_token total_time_ms tokens_per_second
       prompt_tokens completion_tokens.
      construct_response_json regular_response function_calls time_to_first_token
          total_time_ms tokens_per_second prompt_tokens completion_tokens =
        ''{"success":true,"response":"'' @ concat (map escape_char regular_response) @ ''",'' @
        (if function_calls = [] then []
         else ''"function_calls":['' @ join_with '','' function_calls @ ''],'') @
        ''"time_to_first_token_ms":'' @ format_fixed2 time_to_first_token @
        '',"total_time_ms":'' @ format_fixed2 total_time_ms @
        '',"tokens_per_second":'' @ format_fixed2 tokens_per_second @
        '',"prefill_tokens":'' @ to_string prompt_tokens @
        '',"decode_tokens":'' @ to_string completion_tokens @
        '',"total_tokens":'' @
        to_string ((prompt_tokens + completion_tokens) mod 18446744073709551616) @ ''}'')
   \<and> (\<forall>r. \<exists>whole d1 d2.
          format_fixed2 (Finite r) = (if r < 0 then ''-'' else []) @ whole @ ''.'' @ [d1, d2]
          \<and> whole \<noteq> [] \<and> (\<forall>c \<in> set whole. is_digit c) \<and> is_digit d1 \<and> is_digit d2)
   \<and> format_fixed2 NegZero = ''-0.00'' \<and> format_fixed2 NaN = ''nan''
   \<and> format_fixed2 (Infinity False) = ''inf'' \<and> format_fixed2 (Infinity True) = ''-inf''
   \<and> (\<forall>t1 t3. \<bar>t1 - 123456 / 10000\<bar> \<le> 1 / 1000000 \<and> \<bar>t3 - 9999 / 1000\<bar> \<le> 1 / 1000000 \<longrightarrow>
          construct_response_json ''ok'' [] (Finite t1) (Finite 100) (Finite t3) 5 7 =
            ''{"success":true,"response":"ok","time_to_first_token_ms":12.35,"total_time_ms":100.00,"tokens_per_second":10.00,"prefill_tokens":5,"decode_tokens":7,"total_tokens":12}'')\<close>
proof (intro conjI allI impI)
  fix regular_response function_calls time_to_first_token total_time_ms tokens_per_second
    prompt_tokens completion_tokens
  have "function_calls_loop function_calls 0 [] = join_with '','' function_calls"
    using function_calls_loop_join [of 0 function_calls] by simp
  then show \<open>construct_response_json regular_response function_calls time_to_first_token
          total_time_ms tokens_per_second prompt_tokens completion_tokens =
        ''{"success":true,"response":"'' @ concat (map escape_char regular_response) @ ''",'' @
        (if function_calls = [] then []
         else ''"function_calls":['' @ join_with '','' function_calls @ ''],'') @
        ''"time_to_first_token_ms":'' @ format_fixed2 time_to_first_token @
        '',"total_time_ms":'' @ format_fixed2 total_time_ms @
        '',"tokens_per_second":'' @ format_fixed2 tokens_per_second @
        '',"prefill_tokens":'' @ to_string prompt_tokens @
        '',"decode_tokens":'' @ to_string completion_tokens @
        '',"total_tokens":'' @
        to_string ((prompt_tokens + completion_tokens) mod 18446744073709551616) @ ''}''\<close>
    by (simp add: construct_response_json_def size_add_def)
next
  fix r :: rat
  define n where "n = round_half_even (\<bar>r\<bar> * 100)"
  have "format_fixed2 (Finite r) = (if r < 0 then ''-'' else []) @ to_string (n div 100) @ ''.''
      @ [digit_char (n div 10 mod 10), digit_char (n mod 10)]"
    by (simp add: format_fixed2_def n_def Let_def)
  moreover have "to_string (n div 100) \<noteq> []"
    by (subst to_string.simps) simp
  moreover have "\<forall>c \<in> set (to_string (n div 100)). is_digit c"
    by (simp add: to_string_digits)
  moreover have "is_digit (digit_char (n div 10 mod 10))" "is_digit (digit_char (n mod 10))"
    by (simp_all add: is_digit_digit_char)
  ultimately show "\<exists>whole d1 d2.
          format_fixed2 (Finite r) = (if r < 0 then ''-'' else []) @ whole @ ''.'' @ [d1, d2]
          \<and> whole \<noteq> [] \<and> (\<forall>c \<in> set whole. is_digit c) \<and> is_digit d1 \<and> is_digit d2"
    by blast
next
  show "format_fixed2 NegZero = ''-0.00''" "format_fixed2 NaN = ''nan''"
    "format_fixed2 (Infinity False) = ''inf''" "format_fixed2 (Infinity True) = ''-inf''"
    by (simp_all add: format_fixed2_def)
next
  fix t1 t3 :: rat
  assume a: "\<bar>t1 - 123456 / 10000\<bar> \<le> 1 / 1000000 \<and> \<bar>t3 - 9999 / 1000\<bar> \<le> 1 / 1000000"
  from a have "\<bar>t1 - 123456 / 10000\<bar> \<le> 1 / 1000000" and "\<bar>t3 - 9999 / 1000\<bar> \<le> 1 / 1000000"
    by blast+
  then have t: "123455 / 10000 \<le> t1" "t1 \<le> 123457 / 10000" "9998 / 1000 \<le> t3" "t3 \<le> 10"
    by linarith+
  have b1: "0 \<le> t1" "of_nat 1235 - 1 / 2 < t1 * 100" "t1 * 100 < of_nat 1235 + 1 / 2"
    using t(1,2) by simp_all
  have b3: "0 \<le> t3" "of_nat 1000 - 1 / 2 < t3 * 100" "t3 * 100 < of_nat 1000 + 1 / 2"
    using t(3,4) by simp_all
  have b2: "(0 :: rat) \<le> 100" "of_nat 10000 - 1 / 2 < (100 :: rat) * 100"
    "(100 :: rat) * 100 < of_nat 10000 + 1 / 2"
    by simp_all
  have "format_fixed2 (Finite t1) = ''12.35''"
    by (simp add: format_fixed2_near [OF b1] to_string_eval)
  moreover have "format_fixed2 (Finite t3) = ''10.00''"
    by (simp add: format_fixed2_near [OF b3] to_string_eval)
  moreover have "format_fixed2 (Finite 100) = ''100.00''"
    by (simp add: format_fixed2_near [OF b2] to_string_eval)
  ultimately show \<open>construct_response_json ''ok'' [] (Finite t1) (Finite 100) (Finite t3) 5 7 =
            ''{"success":true,"response":"ok","time_to_first_token_ms":12.35,"total_time_ms":100.00,"tokens_per_second":10.00,"prefill_tokens":5,"decode_tokens":7,"total_tokens":12}''\<close>
    by (simp add: construct_response_json_def escape_char_def size_add_def to_string_eval)
qed

theorem response_json_layout_witness:
  \<open>\<bar>(123456 / 10000 :: rat) - 123456 / 10000\<bar> \<le> 1 / 1000000
   \<and> \<bar>(9999 / 1000 :: rat) - 9999 / 1000\<bar> \<le> 1 / 1000000
   \<and> construct_response_json ''ok'' [] (Finite (123456 / 10000)) (Finite 100)
        (Finite (9999 / 1000)) 5 7 =
      ''{"success":true,"response":"ok","time_to_first_token_ms":12.35,"total_time_ms":100.00,"tokens_per_second":10.00,"prefill_tokens":5,"decode_tokens":7,"total_tokens":12}''\<close>
proof -
  have h: \<open>\<bar>(123456 / 10000 :: rat) - 123456 / 10000\<bar> \<le> 1 / 1000000
     \<and> \<bar>(9999 / 1000 :: rat) - 9999 / 1000\<bar> \<le> 1 / 1000000\<close>
    by simp
  from response_json_layout [THEN conjunct2, THEN conjunct2, THEN conjunct2, THEN conjunct2,
      THEN conjunct2, THEN conjunct2, rule_format, OF h] h
  show ?thesis by blast
qed

lemmas json_eval =
  is_json_object_def is_json_text_def json_ws_def json_number_def json_digits_def is_digit_def is_hex_digit_def
  to_lower_def


subsection \<open>Tools in the prompt\<close>






subsection \<open>The two passes over the content\<close>

lemma size_add_small: "a + b < 18446744073709551616 \<Longrightarrow> size_add a b = a + b"
  by (simp add: size_add_def)

lemma size_sub_small:
  assumes "b \<le> a" and "a < 18446744073709551616"
  shows "size_sub a b = a - b"
proof -
  from assms(1) have "a + 18446744073709551616 - b = (a - b) + 18446744073709551616"
    by simp
  moreover from assms have "(a - b) mod 18446744073709551616 = a - b"
    by simp
  ultimately show ?thesis
    by (simp only: size_sub_def mod_add_self2)
qed

lemma str_find_at:
  assumes "json = pre @ rest" and "length json < npos" and "first_match pat rest = Some k"
  shows "str_find json pat (length pre) = length pre + k"
  using assms by (simp add: str_find_def)

lemma str_find_at_none:
  assumes "json = pre @ rest" and "first_match pat rest = None"
  shows "str_find json pat (length pre) = npos"
  using assms by (simp add: str_find_def)

lemma str_find_npos_no_match:
  assumes "str_find s pat i = npos" and "length s < npos" and "i \<le> j" and "j \<le> length s"
  shows "\<not> starts_with (drop j s) pat"
proof -
  have "first_match pat (drop i s) = None"
  proof (cases "first_match pat (drop i s)")
    case (Some k)
    from first_match_SomeD [OF this] have "k + length pat \<le> length s - i" by simp
    with assms(3,4) have "i + k \<le> length s" by linarith
    with assms(1,2,3,4) Some show ?thesis
      by (simp add: str_find_def split: if_splits)
  qed
  from first_match_NoneD [OF this, of "j - i"] assms(3,4) show ?thesis by simp
qed

lemma replace_pass_no_match:
  "(\<And>j. j \<le> length xs \<Longrightarrow> \<not> starts_with (drop j xs) [BSL, c]) \<Longrightarrow> replace_pass c r xs = xs"
proof (induction c r xs rule: replace_pass.induct)
  case (3 c r x y zs)
  from "3.prems" [of 0] have ne: "\<not> (x = BSL \<and> y = c)" by simp
  have "\<not> starts_with (drop j (y # zs)) [BSL, c]" if "j \<le> length (y # zs)" for j
    using "3.prems" [of "Suc j"] that by simp
  with "3.IH"(2) ne have "replace_pass c r (y # zs) = y # zs" by blast
  with ne show ?case by auto
qed simp_all

lemma replace_pass_first_match:
  assumes "\<And>j. j < k \<Longrightarrow> \<not> starts_with (drop j xs) [BSL, c]"
    and "starts_with (drop k xs) [BSL, c]"
  shows "replace_pass c r xs = take k xs @ r # replace_pass c r (drop (k + 2) xs)"
  using assms
proof (induction k arbitrary: xs)
  case 0
  then obtain zs where "xs = BSL # c # zs"
    by (cases xs; cases "tl xs") auto
  then show ?case by simp
next
  case (Suc k)
  from Suc.prems(2) obtain x y zs where xs: "xs = x # y # zs"
    by (cases xs; cases "tl xs") auto
  from Suc.prems(1) [of 0] xs have ne: "\<not> (x = BSL \<and> y = c)" by simp
  have "replace_pass c r (y # zs) = take k (y # zs) @ r # replace_pass c r (drop (k + 2) (y # zs))"
  proof (rule Suc.IH)
    show "\<not> starts_with (drop j (y # zs)) [BSL, c]" if "j < k" for j
      using Suc.prems(1) [of "Suc j"] that xs by simp
    show "starts_with (drop k (y # zs)) [BSL, c]"
      using Suc.prems(2) xs by simp
  qed
  with ne xs show ?case by auto
qed

lemma replace_escape_pass:
  assumes "length s < npos" and "i \<le> length s"
  shows "replace_escape s c r i = Inr (take i s @ replace_pass c r (drop i s))"
  using assms
proof (induction s c r i rule: replace_escape.induct)
  case (1 s c r i)
  define p where "p = str_find s [BSL, c] i"
  show ?case
  proof (cases "p = npos")
    case True
    have "replace_pass c r (drop i s) = drop i s"
    proof (rule replace_pass_no_match)
      fix j assume "j \<le> length (drop i s)"
      with "1.prems" str_find_npos_no_match [OF True [unfolded p_def] "1.prems"(1), of "i + j"]
      show "\<not> starts_with (drop j (drop i s)) [BSL, c]" by (simp add: add.commute)
    qed
    with True show ?thesis
      by (subst replace_escape.simps) (simp add: p_def)
  next
    case False
    note f = str_find_found [OF p_def [symmetric] False]
    define s' where "s' = take p s @ [r] @ drop (p + 2) s"
    from f(2) have r: "str_replace s p 2 [r] = Inr s'"
      by (simp add: str_replace_def s'_def)
    from f(2) have len: "length s' = length s - 1"
      by (simp add: s'_def)
    have "replace_escape s' c r (p + 1) = Inr (take (p + 1) s' @ replace_pass c r (drop (p + 1) s'))"
      using "1.IH" [OF p_def False r] "1.prems"(1) len f(2) by simp
    moreover from f(2) have "take (p + 1) s' = take p s @ [r]" "drop (p + 1) s' = drop (p + 2) s"
      by (simp_all add: s'_def)
    moreover have "replace_pass c r (drop i s)
        = take (p - i) (drop i s) @ r # replace_pass c r (drop (p - i + 2) (drop i s))"
    proof (rule replace_pass_first_match)
      show "\<not> starts_with (drop j (drop i s)) [BSL, c]" if "j < p - i" for j
        using f(4) [of "i + j"] that by (simp add: add.commute)
      show "starts_with (drop (p - i) (drop i s)) [BSL, c]"
        using f(1,3) by simp
    qed
    moreover from f(1) have "take i s @ take (p - i) (drop i s) = take p s"
      by (metis le_add_diff_inverse take_add)
    moreover from f(1) have "drop (p - i + 2) (drop i s) = drop (p + 2) s"
      by simp
    ultimately show ?thesis
      using False r by (subst replace_escape.simps) (simp add: p_def [symmetric])
  qed
qed

lemma length_replace_pass: "length (replace_pass c r xs) \<le> length xs"
  by (induction c r xs rule: replace_pass.induct) auto

lemma unescape_content_passes:
  assumes "length raw < npos"
  shows "unescape_content raw = Inr (resolve_escapes raw)"
proof -
  from assms have "replace_escape raw (CHR ''n'') NL 0 = Inr (replace_pass (CHR ''n'') NL raw)"
    using replace_escape_pass [of raw 0] by simp
  moreover from assms length_replace_pass [of "CHR ''n''" NL raw]
  have "length (replace_pass (CHR ''n'') NL raw) < npos" by simp
  then have \<open>replace_escape (replace_pass (CHR ''n'') NL raw) (CHR ''"'') (CHR ''"'') 0
      = Inr (resolve_escapes raw)\<close>
    using replace_escape_pass [of "replace_pass (CHR ''n'') NL raw" 0]
    by (simp add: resolve_escapes_def)
  ultimately show ?thesis by (simp add: unescape_content_def)
qed

lemma first_match_skip:
  "c \<notin> set g \<Longrightarrow> first_match (c # ps) (g @ c # ps @ rest) = Some (length g)"
proof (induction g)
  case Nil
  have "starts_with (ps @ rest) ps" by (simp add: starts_with_take)
  then show ?case by simp
next
  case (Cons x g)
  then show ?case by auto
qed

lemma first_match_skip_after:
  assumes "c \<notin> set g" and "g = [] \<or> hd g \<noteq> p" and "p \<noteq> c"
  shows "first_match (c # p # ps) (c # g @ c # p # ps @ rest) = Some (1 + length g)"
proof -
  from assms(2,3) have "\<not> starts_with (g @ c # p # ps @ rest) (p # ps)"
    by (cases g) auto
  with first_match_skip [OF assms(1), of "p # ps" rest] show ?thesis by simp
qed

lemma str_find_char_next:
  assumes "i < length s" and "s ! i \<noteq> c" and "length s < npos"
  shows "str_find_char s c i = str_find_char s c (i + 1)"
proof -
  from assms(1) have "drop i s = s ! i # drop (i + 1) s"
    by (simp add: Cons_nth_drop_Suc)
  with assms show ?thesis
    by (simp add: str_find_char_def str_find_def split: option.splits)
qed

lemma content_scan_closing_quote:
  assumes "json = pre @ raw @ CHR 0x22 # post" and "length json < npos" and "pre \<noteq> []"
    and "quotes_escaped (last pre) raw"
  shows "content_scan json (length pre) = Inr (length pre + length raw)"
  using assms
proof (induction raw arbitrary: pre)
  case Nil
  from Nil.prems(1,2) have q: "str_find_char json (CHR 0x22) (length pre) = length pre"
    using str_find_at [of json pre "CHR 0x22 # post" "[CHR 0x22]" 0]
    by (simp add: str_find_char_def)
  from Nil.prems(1,2,3) have "size_sub (length pre) 1 = length pre - 1"
    by (intro size_sub_small) (auto simp: npos_def Suc_le_eq)
  moreover from Nil.prems(1,3) have "json ! (length pre - 1) = last pre"
    by (simp add: nth_append last_conv_nth)
  ultimately have "str_at json (size_sub (length pre) 1) = Inr (last pre)"
    using Nil.prems(1,3) by (simp add: str_at_def)
  with q Nil.prems show ?case
    by (subst content_scan.simps) (auto simp: npos_def)
next
  case (Cons c cs)
  from Cons.prems(1) have json: "json = (pre @ [c]) @ cs @ CHR 0x22 # post" by simp
  from Cons.prems(4) have "quotes_escaped (last (pre @ [c])) cs" by simp
  from Cons.IH [OF json Cons.prems(2) _ this]
  have IH: "content_scan json (length pre + 1) = Inr (length pre + length (c # cs))" by simp
  from Cons.prems(1) have lt: "length pre < length json" "length pre + 1 < length json"
    and c: "json ! length pre = c"
    by simp_all
  show ?case
  proof (cases "c = CHR 0x22")
    case True
    with Cons.prems(4) have "last pre = BSL" by simp
    from Cons.prems(1,2) True have q: "str_find_char json (CHR 0x22) (length pre) = length pre"
      using str_find_at [of json pre "c # cs @ CHR 0x22 # post" "[CHR 0x22]" 0]
      by (simp add: str_find_char_def)
    from Cons.prems(1,2,3) have "size_sub (length pre) 1 = length pre - 1"
      by (intro size_sub_small) (auto simp: npos_def Suc_le_eq)
    moreover from Cons.prems(1,3) have "json ! (length pre - 1) = last pre"
      by (simp add: nth_append last_conv_nth)
    ultimately have "str_at json (size_sub (length pre) 1) = Inr BSL"
      using Cons.prems(1,3) \<open>last pre = BSL\<close> by (simp add: str_at_def)
    with q lt(1) Cons.prems(2) have
      "content_scan json (length pre) = content_scan json (length pre + 1)"
      by (subst content_scan.simps) (auto simp: npos_def)
    with IH show ?thesis by simp
  next
    case False
    with c lt Cons.prems(2) have
      "str_find_char json (CHR 0x22) (length pre) = str_find_char json (CHR 0x22) (length pre + 1)"
      by (intro str_find_char_next) auto
    with lt have "content_scan json (length pre) = content_scan json (length pre + 1)"
      by (subst content_scan.simps, subst (2) content_scan.simps) simp
    with IH show ?thesis by simp
  qed
qed

subsection \<open>Chat arrays that the decoder reads in full\<close>

lemma substr_at:
  assumes "json = pre @ mid @ rest"
  shows "substr json (length pre) (length mid) = Inr mid"
  using assms by (simp add: substr_def)

lemma str_find_skip:
  assumes "json = pre @ g @ c # ps @ rest" and "length json < npos" and "c \<notin> set g"
  shows "str_find json (c # ps) (length pre) = length pre + length g"
  using str_find_at [OF assms(1,2), of "c # ps" "length g"] first_match_skip [OF assms(3), of ps rest]
  by simp

lemma str_find_skip_after:
  assumes "json = pre @ c # g @ c # p # ps @ rest" and "length json < npos" and "c \<notin> set g"
    and "g = [] \<or> hd g \<noteq> p" and "p \<noteq> c"
  shows "str_find json (c # p # ps) (length pre) = length pre + 1 + length g"
  using str_find_at [OF assms(1,2), of "c # p # ps" "1 + length g"]
    first_match_skip_after [OF assms(3,4,5), of ps rest]
  by simp

lemma str_find_char_at:
  assumes "json = pre @ g @ c # rest" and "length json < npos" and "c \<notin> set g"
  shows "str_find_char json c (length pre) = length pre + length g"
  unfolding str_find_char_def
  using str_find_skip [of json pre g c "[]" rest] assms by simp

lemma str_find_char_at_none:
  assumes "json = pre @ g" and "c \<notin> set g"
  shows "str_find_char json c (length pre) = npos"
  unfolding str_find_char_def
  using str_find_at_none [OF assms(1), of "[c]"] first_match_char_absent [OF assms(2)]
  by simp

lemma parse_messages_loop_object:
  assumes json: "json = pre @ object_text x @ rest" and len: "length json < npos"
    and wf: "well_formed_object x"
  shows \<open>parse_messages_loop json (length pre) msgs =
    parse_messages_loop json
      (str_find_char json (CHR ''{'')
         (length pre + (length (object_text x) - length (after_content x) - 1)))
      (msgs @ [decoded x])\<close>
proof -
  define a b r c d t e where parts:
    "a = before_role x" "b = before_role_value x" "r = role_value x" "c = before_content x"
    "d = before_content_value x" "t = content_value x" "e = after_content x"
  define p1 where \<open>p1 = pre @ ''{'' @ a\<close>
  define p2 where \<open>p2 = p1 @ ''"role"''\<close>
  define p3 where \<open>p3 = p2 @ b @ ''"''\<close>
  define p4 where \<open>p4 = p3 @ r\<close>
  define p5 where \<open>p5 = p4 @ ''"'' @ c\<close>
  define p6 where \<open>p6 = p5 @ ''"content"''\<close>
  define p7 where \<open>p7 = p6 @ d @ ''"''\<close>
  define p8 where \<open>p8 = p7 @ t\<close>
  define q8 where \<open>q8 = e @ rest\<close>
  define q7 where \<open>q7 = t @ ''"'' @ q8\<close>
  define q6 where \<open>q6 = d @ ''"'' @ q7\<close>
  define q4 where \<open>q4 = ''"'' @ c @ ''"content"'' @ q6\<close>
  define q3 where \<open>q3 = r @ q4\<close>
  define q2 where \<open>q2 = b @ ''"'' @ q3\<close>
  note ps = p1_def p2_def p3_def p4_def p5_def p6_def p7_def p8_def
  note qs = q8_def q7_def q6_def q4_def q3_def q2_def
  from wf have w: \<open>CHR ''"'' \<notin> set (''{'' @ a)\<close> \<open>CHR ''"'' \<notin> set b\<close> \<open>CHR ''"'' \<notin> set r\<close>
    \<open>CHR ''"'' \<notin> set c\<close> \<open>c = [] \<or> hd c \<noteq> CHR ''c''\<close> \<open>CHR ''"'' \<notin> set d\<close>
    \<open>quotes_escaped (CHR ''"'') t\<close> \<open>CHR ''{'' \<notin> set e\<close>
    by (simp_all add: well_formed_object_def parts)
  have e0: \<open>json = pre @ (''{'' @ a) @ CHR ''"'' # ''role"'' @ q2\<close>
    by (simp add: json object_text_def qs parts)
  have e2: \<open>json = p2 @ b @ CHR ''"'' # q3\<close>
    by (simp add: e0 ps qs)
  have e3: \<open>json = p3 @ r @ CHR ''"'' # (c @ ''"content"'' @ q6)\<close>
    by (simp add: e0 ps qs)
  have e3': \<open>json = p3 @ r @ q4\<close>
    by (simp add: e0 ps qs)
  have e4: \<open>json = p4 @ CHR ''"'' # c @ CHR ''"'' # CHR ''c'' # ''ontent"'' @ q6\<close>
    by (simp add: e0 ps qs)
  have e6: \<open>json = p6 @ d @ CHR ''"'' # q7\<close>
    by (simp add: e0 ps qs)
  have e7: \<open>json = p7 @ t @ CHR ''"'' # q8\<close>
    by (simp add: e0 ps qs)
  have e7': \<open>json = p7 @ t @ (''"'' @ q8)\<close>
    by (simp add: e0 ps qs)
  have lens: "length p3 \<le> length json" "length p4 \<le> length json"
    "length p7 \<le> length json" "length p8 < length json"
    by (simp_all add: e7 ps)
  have big: "length json < 18446744073709551615"
    using len by (simp add: npos_def)
  have pos: "length pre \<noteq> npos"
    using len by (simp add: json)
  have s0: \<open>str_find json ''"role"'' (length pre) = length p1\<close>
    using str_find_skip [OF e0 len w(1)] by (simp add: p1_def)
  have l1: "length p1 + 6 = length p2"
    by (simp add: p2_def)
  have s1: \<open>str_find_char json (CHR ''"'') (length p2) = length p2 + length b\<close>
    by (rule str_find_char_at [OF e2 len w(2)])
  have s2: \<open>size_add (length p2 + length b) 1 = length p3\<close>
    using lens(1) big by (subst size_add_small) (simp_all add: p3_def)
  have s3: \<open>str_find_char json (CHR ''"'') (length p3) = length p4\<close>
    using str_find_char_at [OF e3 len w(3)] by (simp add: p4_def)
  have s4: \<open>substr json (length p3) (size_sub (length p4) (length p3)) = Inr r\<close>
  proof -
    from lens(2) big have "size_sub (length p4) (length p3) = length r"
      by (subst size_sub_small) (simp_all add: p4_def)
    with substr_at [OF e3'] show ?thesis by simp
  qed
  have s5: \<open>str_find json ''"content"'' (length p4) = length p5\<close>
    using str_find_skip_after [OF e4 len w(4,5)] by (simp add: p5_def)
  have l5: "length p5 + 9 = length p6"
    by (simp add: p6_def)
  have s6: \<open>str_find_char json (CHR ''"'') (length p6) = length p6 + length d\<close>
    by (rule str_find_char_at [OF e6 len w(6)])
  have s7: \<open>size_add (length p6 + length d) 1 = length p7\<close>
    using lens(3) big by (subst size_add_small) (simp_all add: p7_def)
  have s8: \<open>content_scan json (length p7) = Inr (length p8)\<close>
    using content_scan_closing_quote [OF e7 len] w(7) by (simp add: p7_def p8_def)
  have s9: \<open>substr json (length p7) (size_sub (length p8) (length p7)) = Inr t\<close>
  proof -
    from lens(4) big have "size_sub (length p8) (length p7) = length t"
      by (subst size_sub_small) (simp_all add: p8_def)
    with substr_at [OF e7'] show ?thesis by simp
  qed
  have s10: "unescape_content t = Inr (resolve_escapes t)"
    using lens(4) len by (intro unescape_content_passes) (simp add: p8_def)
  have np: "length p1 \<noteq> npos" "length p5 \<noteq> npos"
    using lens(4) len by (simp_all add: ps)
  have ce: "length pre + (length (object_text x) - length (after_content x) - 1) = length p8"
    by (simp add: object_text_def ps parts)
  have dec: "decoded x = \<lparr>role = r, content = resolve_escapes t\<rparr>"
    by (simp add: decoded_def parts)
  from s2 s7 have s2': \<open>size_add (length p2 + length b) (Suc 0) = length p3\<close>
    and s7': \<open>size_add (length p6 + length d) (Suc 0) = length p7\<close>
    by simp_all
  show ?thesis
    unfolding ce dec
    by (subst parse_messages_loop.simps)
      (simp add: Let_def pos s0 l1 s1 s2 s2' s3 s4 l5 s5 s6 s7 s7' s8 s9 s10 np)
qed

lemma object_text_brace: "\<exists>q. object_text x = CHR ''{'' # q"
  by (simp add: object_text_def)

lemma next_object_position:
  assumes json: "json = pre @ object_text x @ rest" and len: "length json < npos"
    and wf: "well_formed_object x"
  shows \<open>rest = [] \<Longrightarrow>
      str_find_char json (CHR ''{'')
        (length pre + (length (object_text x) - length (after_content x) - 1)) = npos\<close>
    and \<open>\<And>q. rest = CHR ''{'' # q \<Longrightarrow>
      str_find_char json (CHR ''{'')
        (length pre + (length (object_text x) - length (after_content x) - 1))
      = length (pre @ object_text x)\<close>
proof -
  define p8 where \<open>p8 = pre @ ''{'' @ before_role x @ ''"role"'' @ before_role_value x @ ''"'' @
    role_value x @ ''"'' @ before_content x @ ''"content"'' @ before_content_value x @ ''"'' @
    content_value x\<close>
  have ce: "length pre + (length (object_text x) - length (after_content x) - 1) = length p8"
    by (simp add: object_text_def p8_def)
  from wf have w: \<open>CHR ''{'' \<notin> set (''"'' @ after_content x)\<close>
    by (simp add: well_formed_object_def)
  show \<open>str_find_char json (CHR ''{'')
        (length pre + (length (object_text x) - length (after_content x) - 1)) = npos\<close>
    if "rest = []"
  proof -
    from that have \<open>json = p8 @ (''"'' @ after_content x)\<close>
      by (simp add: json object_text_def p8_def)
    from str_find_char_at_none [OF this w] show ?thesis
      unfolding ce .
  qed
  show \<open>str_find_char json (CHR ''{'')
        (length pre + (length (object_text x) - length (after_content x) - 1))
      = length (pre @ object_text x)\<close>
    if "rest = CHR ''{'' # q" for q
  proof -
    from that have \<open>json = p8 @ (''"'' @ after_content x) @ CHR ''{'' # q\<close>
      by (simp add: json object_text_def p8_def)
    from str_find_char_at [OF this len w] show ?thesis
      unfolding ce by (simp add: object_text_def p8_def)
  qed
qed

lemma parse_messages_loop_objects:
  assumes "json = pre @ concat (map object_text (x # xs))" and "length json < npos"
    and "\<forall>y \<in> set (x # xs). well_formed_object y"
  shows "parse_messages_loop json (length pre) msgs = Some (Inr (msgs @ map decoded (x # xs)))"
  using assms
proof (induction xs arbitrary: x pre msgs)
  case Nil
  then have json: "json = pre @ object_text x @ []" and wf: "well_formed_object x"
    by simp_all
  from parse_messages_loop_object [OF json Nil.prems(2) wf, of msgs]
    next_object_position(1) [OF json Nil.prems(2) wf]
  have "parse_messages_loop json (length pre) msgs = parse_messages_loop json npos (msgs @ [decoded x])"
    by simp
  then show ?case
    by (subst (asm) (2) parse_messages_loop.simps) simp
next
  case (Cons y ys)
  then have json: "json = pre @ object_text x @ concat (map object_text (y # ys))"
    and wf: "well_formed_object x"
    by simp_all
  from object_text_brace [of y] obtain q where
    q: "concat (map object_text (y # ys)) = CHR ''{'' # q"
    by auto
  from parse_messages_loop_object [OF json Cons.prems(2) wf, of msgs]
    next_object_position(2) [OF json Cons.prems(2) wf q]
  have "parse_messages_loop json (length pre) msgs
      = parse_messages_loop json (length (pre @ object_text x)) (msgs @ [decoded x])"
    by simp
  moreover have "parse_messages_loop json (length (pre @ object_text x)) (msgs @ [decoded x])
      = Some (Inr ((msgs @ [decoded x]) @ map decoded (y # ys)))"
    using Cons.prems by (intro Cons.IH) simp_all
  ultimately show ?case by simp
qed

lemma parse_messages_json_chat_text:
  assumes wf: "\<forall>x \<in> set xs. well_formed_object x"
    and front: "CHR ''['' \<notin> set front" and gap: "CHR ''{'' \<notin> set gap"
    and len: "length (chat_text front gap xs) < npos"
  shows "parse_messages_json (chat_text front gap xs) = Some (Inr (map decoded xs))"
proof -
  define json where "json = chat_text front gap xs"
  have j0: "json = [] @ front @ CHR ''['' # (gap @ concat (map object_text xs))"
    by (simp add: json_def chat_text_def)
  from str_find_char_at [OF j0 len [folded json_def] front]
  have b: "str_find_char json (CHR ''['') 0 = length front" by simp
  have nb: "length front \<noteq> npos"
    using len by (simp add: chat_text_def)
  from gap have g: "CHR ''{'' \<notin> set (''['' @ gap)" by simp
  show ?thesis
  proof (cases xs)
    case Nil
    then have "json = front @ (''['' @ gap)"
      by (simp add: json_def chat_text_def)
    from str_find_char_at_none [OF this g]
    have "str_find_char json (CHR ''{'') (length front) = npos" .
    with b nb Nil show ?thesis
      unfolding json_def [symmetric] parse_messages_json_def
      by (subst parse_messages_loop.simps) simp
  next
    case (Cons y ys)
    from object_text_brace [of y] obtain q where q: "object_text y = CHR ''{'' # q" ..
    with Cons have "json = front @ (''['' @ gap) @ CHR ''{'' # (q @ concat (map object_text ys))"
      by (simp add: json_def chat_text_def)
    from str_find_char_at [OF this len [folded json_def] g]
    have o: "str_find_char json (CHR ''{'') (length front) = length (front @ ''['' @ gap)"
      by simp
    from Cons have "json = (front @ ''['' @ gap) @ concat (map object_text (y # ys))"
      by (simp add: json_def chat_text_def)
    from parse_messages_loop_objects [OF this len [folded json_def], of "[]"] wf Cons
    have "parse_messages_loop json (length (front @ ''['' @ gap)) [] = Some (Inr (map decoded xs))"
      by simp
    with b nb o show ?thesis
      unfolding json_def [symmetric] parse_messages_json_def by simp
  qed
qed

text \<open>
  Claim C4, as stated, is about every valid chat array. The text below is a JSON array
  of two objects with a role and a content; the first content ends with an escaped
  backslash. The decoder takes the closing quote of that content for an escaped quote,
  reads on to the next quote, and returns one record.
\<close>

theorem chat_array_with_escaped_backslash:
  \<open>is_json_text
      (''[{"role":"user","content":"a'' @ [BSL, BSL] @ ''"},{"role":"user","content":"b"}]'')
   \<and> parse_messages_json
      (''[{"role":"user","content":"a'' @ [BSL, BSL] @ ''"},{"role":"user","content":"b"}]'')
     = Some (Inr [\<lparr>role = ''user'', content = ''a'' @ [BSL] @ ''"},{''\<rparr>])\<close>
proof
  show \<open>is_json_text
      (''[{"role":"user","content":"a'' @ [BSL, BSL] @ ''"},{"role":"user","content":"b"}]'')\<close>
    by (simp add: is_json_text_def json_eval)
  show \<open>parse_messages_json
      (''[{"role":"user","content":"a'' @ [BSL, BSL] @ ''"},{"role":"user","content":"b"}]'')
     = Some (Inr [\<lparr>role = ''user'', content = ''a'' @ [BSL] @ ''"},{''\<rparr>])\<close>
    by (simp add: messages_eval string_eval)
qed

text \<open>
  Claim C4, amended. For every chat array shorter than \<open>2 ^ 64 - 1\<close> bytes and made of
  a text without opening bracket, the bracket, a text without opening brace, and N
  objects, each an opening brace, the key \<^verbatim>\<open>"role"\<close>, the quoted role, the key
  \<^verbatim>\<open>"content"\<close> and the quoted content, where the texts between them hold no quote, the
  text behind the role does not begin with the letter \<open>c\<close>, the text behind the content
  holds no opening brace, the role holds no quote, every quote in the content directly
  follows a backslash and the content does not end with a backslash (so for
  \<^verbatim>\<open>[{"role":"R","content":"C"},...]\<close>, with or without white space), the decoder returns
  exactly N records in the order of the input, each with its role and with its content
  resolved by the two passes in their order: first every backslash, \<open>n\<close> becomes a line
  break, then every backslash, quote becomes a quote, and no pass looks again at what it
  has written.
\<close>

theorem chat_array_decoded_in_order:
  assumes "\<forall>x \<in> set xs. well_formed_object x"
    and "CHR ''['' \<notin> set front" and "CHR ''{'' \<notin> set gap"
    and "length (chat_text front gap xs) < npos"
  shows \<open>parse_messages_json (chat_text front gap xs) =
    Some (Inr (map (\<lambda>x. \<lparr>role = role_value x,
                           content = replace_pass (CHR ''"'') (CHR ''"'')
                                       (replace_pass (CHR ''n'') NL (content_value x))\<rparr>) xs))\<close>
proof -
  have "decoded = (\<lambda>x. \<lparr>role = role_value x,
                           content = replace_pass (CHR 0x22) (CHR 0x22)
                                       (replace_pass (CHR ''n'') NL (content_value x))\<rparr>)"
    by (simp add: fun_eq_iff decoded_def resolve_escapes_def)
  with parse_messages_json_chat_text [OF assms] show ?thesis by simp
qed

theorem chat_array_decoded_in_order_witness:
  \<open>well_formed_object
        \<lparr>before_role = [], before_role_value = '':'', role_value = ''user'',
          before_content = '','', before_content_value = '': '',
          content_value = ''say '' @ [BSL] @ ''"hi'' @ [BSL] @ ''"'' @ [BSL] @ ''nbye'',
          after_content = ''},''\<rparr>
   \<and> well_formed_object
        \<lparr>before_role = '' '', before_role_value = '':'', role_value = ''assistant'',
          before_content = '','', before_content_value = '':'',
          content_value = ''ok'', after_content = ''}]''\<rparr>
   \<and> length (''[{"role":"user","content": "say '' @ [BSL] @ ''"hi'' @ [BSL] @ ''"'' @ [BSL] @
         ''nbye"},{ "role":"assistant","content":"ok"}]'') < npos
   \<and> parse_messages_json
        (''[{"role":"user","content": "say '' @ [BSL] @ ''"hi'' @ [BSL] @ ''"'' @ [BSL] @
         ''nbye"},{ "role":"assistant","content":"ok"}]'')
      = Some (Inr [\<lparr>role = ''user'', content = ''say "hi"'' @ [NL] @ ''bye''\<rparr>,
                   \<lparr>role = ''assistant'', content = ''ok''\<rparr>])\<close>
proof -
  define xs where \<open>xs =
        [\<lparr>before_role = [], before_role_value = '':'', role_value = ''user'',
           before_content = '','', before_content_value = '': '',
           content_value = ''say '' @ [BSL] @ ''"hi'' @ [BSL] @ ''"'' @ [BSL] @ ''nbye'',
           after_content = ''},''\<rparr>,
         \<lparr>before_role = '' '', before_role_value = '':'', role_value = ''assistant'',
           before_content = '','', before_content_value = '':'',
           content_value = ''ok'', after_content = ''}]''\<rparr>]\<close>
  have t: \<open>chat_text [] [] xs =
      ''[{"role":"user","content": "say '' @ [BSL] @ ''"hi'' @ [BSL] @ ''"'' @ [BSL] @
         ''nbye"},{ "role":"assistant","content":"ok"}]''\<close>
    by (simp add: chat_text_def object_text_def xs_def)
  have h1: "\<forall>x \<in> set xs. well_formed_object x"
    by (simp add: xs_def well_formed_object_def)
  have h2: "CHR ''['' \<notin> set []" "CHR ''{'' \<notin> set []"
    by simp_all
  have h3: "length (chat_text [] [] xs) < npos"
    by (simp add: t npos_def)
  from chat_array_decoded_in_order [OF h1 h2 h3] h1 h3
  show ?thesis
    unfolding t by (simp add: xs_def)
qed

subsection \<open>Sampling options\<close>

lemma option_text_value:
  assumes "length json < npos"
  shows "option_text json key = Inr (value_text json key)"
proof (cases "str_find json key 0 = npos")
  case True
  then show ?thesis by (simp add: option_text_def value_text_def)
next
  case found: False
  show ?thesis
  proof (cases "str_find_char json (CHR '':'') (str_find json key 0) = npos")
    case True
    have "size_add npos 1 = 0" by (simp add: size_add_def npos_def)
    with True found assms show ?thesis
      by (simp add: option_text_def value_text_def substr_def)
  next
    case False
    from str_find_char_found(2) [OF refl False] assms
    have "size_add (str_find_char json (CHR '':'') (str_find json key 0)) 1
      = str_find_char json (CHR '':'') (str_find json key 0) + 1"
      by (intro size_add_small) (simp add: npos_def)
    with False found assms str_find_char_found(2) [OF refl False] show ?thesis
      by (simp add: option_text_def value_text_def substr_def Let_def)
  qed
qed

lemma float_option_value:
  assumes "length json < npos"
  shows "float_option u json key d = (case value_text json key of None \<Rightarrow> Inr d | Some x \<Rightarrow> stof u x)"
  by (simp add: float_option_def option_text_value [OF assms] split: option.splits)

lemma size_option_value:
  assumes "length json < npos"
  shows "size_option json key d = (case value_text json key of None \<Rightarrow> Inr d | Some x \<Rightarrow> stoul x)"
  by (simp add: size_option_def option_text_value [OF assms] split: option.splits)

lemma scalar_values_options:
  assumes "length json < npos"
  shows \<open>scalar_values u json t p k m \<longleftrightarrow>
    float_option u json ''"temperature"'' (Finite (- 1)) = Inr t \<and>
    float_option u json ''"top_p"'' (Finite (- 1)) = Inr p \<and>
    size_option json ''"top_k"'' 0 = Inr k \<and>
    size_option json ''"max_tokens"'' 100 = Inr m\<close>
  unfolding scalar_values_def float_option_value [OF assms] size_option_value [OF assms]
  by (auto split: option.splits)

lemma value_text_empty: "key \<noteq> [] \<Longrightarrow> value_text [] key = None"
  by (simp add: value_text_def str_find_def npos_def)

lemma parse_stop_sequences_absent:
  \<open>str_find json ''"stop_sequences"'' 0 = npos \<Longrightarrow> parse_stop_sequences json = Some (Inr [])\<close>
  by (simp add: parse_stop_sequences_def)

lemma parse_options_json_returns:
  assumes "length json < npos" and "scalar_values u json t p k m"
    and "parse_stop_sequences json = Some (Inr stops)"
  shows "parse_options_json u json =
    Some (Inr \<lparr>temperature = t, top_p = p, top_k = k, max_tokens = m, stop_sequences = stops\<rparr>)"
proof (cases "json = []")
  case True
  with assms(2) have "t = Finite (- 1)" "p = Finite (- 1)" "k = 0" "m = 100"
    by (simp_all add: scalar_values_def value_text_empty)
  moreover from True assms(3) have "stops = []"
    by (simp add: parse_stop_sequences_def str_find_def npos_def)
  ultimately show ?thesis using True by (simp add: parse_options_json_def)
next
  case False
  with assms(2,3) show ?thesis
    by (simp add: parse_options_json_def scalar_values_options [OF assms(1)])
qed

lemma parse_options_json_fields:
  assumes "parse_options_json u json = Some (Inr opts)" and "length json < npos"
  shows "scalar_values u json (temperature opts) (top_p opts) (top_k opts) (max_tokens opts)"
    and "parse_stop_sequences json = Some (Inr (stop_sequences opts))"
proof -
  show "scalar_values u json (temperature opts) (top_p opts) (top_k opts) (max_tokens opts)"
  proof (cases "json = []")
    case True
    with assms(1) show ?thesis
      by (auto simp: parse_options_json_def scalar_values_def value_text_empty)
  next
    case False
    with assms(1) show ?thesis
      unfolding scalar_values_options [OF assms(2)]
      by (auto simp: parse_options_json_def split: sum.splits option.splits)
  qed
  show "parse_stop_sequences json = Some (Inr (stop_sequences opts))"
  proof (cases "json = []")
    case True
    with assms(1) show ?thesis
      by (auto simp: parse_options_json_def parse_stop_sequences_def str_find_def npos_def)
  next
    case False
    with assms(1) show ?thesis
      by (auto simp: parse_options_json_def split: sum.splits option.splits)
  qed
qed

text \<open>The loop over the entries of an array of stop sequences.\<close>

lemma quote_behind_closing:
  assumes json: \<open>json = pre @ closing @ '']'' @ behind\<close>
    and closing: \<open>CHR ''"'' \<notin> set closing\<close>
  shows \<open>str_find_char json (CHR ''"'') (length pre) = npos
    \<or> length pre + length closing < str_find_char json (CHR ''"'') (length pre)\<close>
proof (cases \<open>str_find_char json (CHR ''"'') (length pre) = npos\<close>)
  case True
  then show ?thesis ..
next
  case False
  define q where \<open>q = str_find_char json (CHR ''"'') (length pre)\<close>
  note f = str_find_char_found [OF q_def [symmetric] False [folded q_def]]
  have "\<not> q \<le> length pre + length closing"
  proof
    assume le: "q \<le> length pre + length closing"
    show False
    proof (cases "q < length pre + length closing")
      case True
      with f(1) have in_closing: "q - length pre < length closing" by simp
      with f(1) json have "json ! q = closing ! (q - length pre)"
        by (simp add: nth_append)
      moreover from in_closing have "closing ! (q - length pre) \<in> set closing"
        by (rule nth_mem)
      ultimately show False using f(3) closing by simp
    next
      case False
      with le have "q = length pre + length closing" by simp
      with json have \<open>json ! q = CHR '']''\<close>
        by (simp add: nth_append)
      with f(3) show False by simp
    qed
  qed
  then show ?thesis by (simp add: q_def)
qed

lemma stop_sequences_loop_items:
  assumes \<open>json = pre @ concat (map stop_item items) @ closing @ '']'' @ behind\<close>
    and "length json < npos"
    and "list_all stop_entry items"
    and \<open>CHR ''"'' \<notin> set closing\<close>
    and "end_pos = length pre + length (concat (map stop_item items)) + length closing"
  shows \<open>stop_sequences_loop json end_pos (str_find_char json (CHR ''"'') (length pre)) stops
    = Some (Inr (stops @ map snd items))\<close>
  using assms
proof (induction items arbitrary: pre stops)
  case Nil
  from Nil(1) have \<open>json = pre @ closing @ '']'' @ behind\<close> by simp
  from quote_behind_closing [OF this Nil(4)] Nil(5) show ?case
    by (subst stop_sequences_loop.simps) auto
next
  case (Cons x items)
  obtain g s where x: "x = (g, s)" by (cases x)
  from Cons(4) have entry: "stop_entry x" and rest: "list_all stop_entry items"
    by simp_all
  from entry x have e: \<open>CHR ''"'' \<notin> set g\<close> \<open>CHR ''"'' \<notin> set s\<close>
    by (simp_all add: stop_entry_def)
  from x have item: \<open>stop_item x = g @ ''"'' @ s @ ''"''\<close>
    by (simp add: stop_item_def)
  define tail where \<open>tail = concat (map stop_item items) @ closing @ '']'' @ behind\<close>
  from Cons(2) have j1: \<open>json = pre @ g @ CHR ''"'' # (s @ ''"'' @ tail)\<close>
    by (simp add: item tail_def)
  from Cons(2) have j2: \<open>json = (pre @ g @ ''"'') @ s @ CHR ''"'' # tail\<close>
    by (simp add: item tail_def)
  from Cons(2) have j3: \<open>json = (pre @ g @ ''"'') @ s @ (''"'' @ tail)\<close>
    by (simp add: item tail_def)
  from Cons(2) have j4:
    \<open>json = (pre @ stop_item x) @ concat (map stop_item items) @ closing @ '']'' @ behind\<close>
    by simp
  have len: "length json = length pre + length g + length s + 2 + length tail"
    by (subst j1) simp
  have seq_pos: \<open>str_find_char json (CHR ''"'') (length pre) = length pre + length g\<close>
    by (rule str_find_char_at [OF j1 Cons(3) e(1)])
  have seq_start: "size_add (length pre + length g) 1 = length pre + length g + 1"
    using Cons(3) len by (intro size_add_small) (simp add: npos_def)
  have seq_end: \<open>str_find_char json (CHR ''"'') (length pre + length g + 1)
      = length pre + length g + 1 + length s\<close>
    using str_find_char_at [OF j2 Cons(3) e(2)] by simp
  have width: "size_sub (length pre + length g + 1 + length s) (length pre + length g + 1)
      = length s"
    using Cons(3) len by (subst size_sub_small) (simp_all add: npos_def)
  have stop: "substr json (length pre + length g + 1) (length s) = Inr s"
    using substr_at [OF j3] by simp
  have next_pos: "size_add (length pre + length g + 1 + length s) 1
      = length (pre @ stop_item x)"
    using Cons(3) len by (subst size_add_small) (simp_all add: npos_def item)
  have in_array: "length pre + length g < end_pos"
    using Cons(6) by (simp add: item)
  have found: "length pre + length g \<noteq> npos" "length pre + length g + 1 + length s \<noteq> npos"
    using Cons(3) len by simp_all
  have end_pos: "end_pos
      = length (pre @ stop_item x) + length (concat (map stop_item items)) + length closing"
    using Cons(6) by simp
  from Cons.IH [OF j4 Cons(3) rest Cons(5) end_pos, of "stops @ [s]"] x
  have IH: \<open>stop_sequences_loop json end_pos
      (str_find_char json (CHR ''"'') (length (pre @ stop_item x))) (stops @ [s])
    = Some (Inr (stops @ map snd (x # items)))\<close>
    by simp
  show ?case
    apply (subst stop_sequences_loop.simps)
    apply (simp only: seq_pos)
    apply (simp only: seq_start Let_def)
    apply (simp only: seq_end)
    apply (simp only: width stop next_pos)
    using in_array found IH apply simp
    done
qed

lemma parse_stop_sequences_array:
  assumes "stop_array_text json front items closing behind" and "length json < npos"
  shows "parse_stop_sequences json = Some (Inr (map snd items))"
proof -
  from assms(1) [unfolded stop_array_text_def] have
    json: \<open>json = front @ ''['' @ concat (map stop_item items) @ closing @ '']'' @ behind\<close>
    and key: \<open>str_find json ''"stop_sequences"'' 0 \<noteq> npos\<close>
    and bracket: \<open>str_find_char json (CHR ''['') (str_find json ''"stop_sequences"'' 0) = length front\<close>
    and items: "list_all stop_entry items"
    and closing: \<open>CHR ''"'' \<notin> set closing\<close> \<open>CHR '']'' \<notin> set closing\<close>
    by blast+
  define body where "body = concat (map stop_item items) @ closing"
  have no_bracket: \<open>CHR '']'' \<notin> set body\<close>
    using items closing(2) by (auto simp: body_def list_all_iff stop_entry_def stop_item_def)
  from json have j1: \<open>json = (front @ ''['') @ body @ CHR '']'' # behind\<close>
    and j2: \<open>json = (front @ ''['') @ concat (map stop_item items) @ closing @ '']'' @ behind\<close>
    by (simp_all add: body_def)
  from json have at: "length front < length json" \<open>json ! length front = CHR ''[''\<close>
    by (simp_all add: nth_append)
  have end_pos: \<open>str_find_char json (CHR '']'') (length front) = length front + 1 + length body\<close>
    using str_find_char_next [OF at(1) _ assms(2), of \<open>CHR '']''\<close>] at(2)
      str_find_char_at [OF j1 assms(2) no_bracket]
    by simp
  have seq_pos: \<open>str_find_char json (CHR ''"'') (length front)
      = str_find_char json (CHR ''"'') (length (front @ ''[''))\<close>
    using str_find_char_next [OF at(1) _ assms(2), of \<open>CHR ''"''\<close>] at(2) by simp
  have "length front \<noteq> npos"
    using at(1) assms(2) by simp
  moreover have "length front + 1 + length body
      = length (front @ ''['') + length (concat (map stop_item items)) + length closing"
    by (simp add: body_def)
  from stop_sequences_loop_items [OF j2 assms(2) items closing(1) this, of "[]"]
  have \<open>stop_sequences_loop json (length front + 1 + length body)
      (str_find_char json (CHR ''"'') (length (front @ ''[''))) [] = Some (Inr (map snd items))\<close>
    by simp
  ultimately show ?thesis
    using key bracket
    by (simp add: parse_stop_sequences_def Let_def end_pos seq_pos)
qed

text \<open>
  Claim C6. The five values are first set to \<open>-1.0\<close>, \<open>-1.0\<close>, \<open>0\<close>, \<open>100\<close> and the empty
  sequence, and a value is overwritten only if the text of its key is found. For a text
  without the key \<^verbatim>\<open>"stop_sequences"\<close>, and for a text with an array of stop sequences
  behind that key, the decoder returns, whenever the texts that follow the scalar keys
  convert: each scalar value is the default when its key does not occur and otherwise
  the number converted from the text that follows the key, and the stop sequences are
  the entries of the array in their order, none without the key. Whenever the decoder
  returns, its values are these. On the empty text all five are the defaults. On the
  example of the specification the decoder returns the \<^verbatim>\<open>float\<close> nearest to \<open>0.7\<close>, which is
  \<open>11744051 / 2 ^ 24\<close>, the three defaults, and the two stop sequences in their order; on
  a text with the four scalar keys it returns the four numbers. All this holds for every
  choice \<open>u\<close> of the library on underflow.
\<close>

theorem options_defaults_then_overwrite:
  \<open>(\<forall>u json t p k m.
      length json < npos \<and> scalar_values u json t p k m \<and>
      str_find json ''"stop_sequences"'' 0 = npos \<longrightarrow>
      parse_options_json u json =
        Some (Inr \<lparr>temperature = t, top_p = p, top_k = k, max_tokens = m,
                    stop_sequences = []\<rparr>))
   \<and> (\<forall>u json t p k m front items closing behind.
      length json < npos \<and> scalar_values u json t p k m \<and>
      stop_array_text json front items closing behind \<longrightarrow>
      parse_options_json u json =
        Some (Inr \<lparr>temperature = t, top_p = p, top_k = k, max_tokens = m,
                    stop_sequences = map snd items\<rparr>))
   \<and> (\<forall>u json opts.
      length json < npos \<and> parse_options_json u json = Some (Inr opts) \<longrightarrow>
      scalar_values u json (temperature opts) (top_p opts) (top_k opts) (max_tokens opts) \<and>
      (str_find json ''"stop_sequences"'' 0 = npos \<longrightarrow> stop_sequences opts = []))
   \<and> (\<forall>u. parse_options_json u [] =
        Some (Inr \<lparr>temperature = Finite (- 1), top_p = Finite (- 1), top_k = 0,
                    max_tokens = 100, stop_sequences = []\<rparr>))
   \<and> (\<forall>u. parse_options_json u ''{"temperature":0.7,"stop_sequences":["END","STOP"]}'' =
        Some (Inr \<lparr>temperature = Finite (11744051 / 16777216), top_p = Finite (- 1),
                    top_k = 0, max_tokens = 100, stop_sequences = [''END'', ''STOP'']\<rparr>))
   \<and> (\<forall>u. parse_options_json u ''{"max_tokens":256,"top_k":40,"top_p":0.25,"temperature":1.5}'' =
        Some (Inr \<lparr>temperature = Finite (3 / 2), top_p = Finite (1 / 4), top_k = 40,
                    max_tokens = 256, stop_sequences = []\<rparr>))\<close>
proof (intro conjI allI impI)
  fix u json t p k m
  assume a: \<open>length json < npos \<and> scalar_values u json t p k m \<and>
      str_find json ''"stop_sequences"'' 0 = npos\<close>
  then have "parse_stop_sequences json = Some (Inr [])"
    by (simp add: parse_stop_sequences_absent)
  with a show \<open>parse_options_json u json =
        Some (Inr \<lparr>temperature = t, top_p = p, top_k = k, max_tokens = m,
                    stop_sequences = []\<rparr>)\<close>
    by (simp add: parse_options_json_returns)
next
  fix u json t p k m front items closing behind
  assume a: \<open>length json < npos \<and> scalar_values u json t p k m \<and>
      stop_array_text json front items closing behind\<close>
  then have "parse_stop_sequences json = Some (Inr (map snd items))"
    by (intro parse_stop_sequences_array [of json front items closing behind]) simp_all
  with a show \<open>parse_options_json u json =
        Some (Inr \<lparr>temperature = t, top_p = p, top_k = k, max_tokens = m,
                    stop_sequences = map snd items\<rparr>)\<close>
    by (simp add: parse_options_json_returns)
next
  fix u json opts
  assume a: "length json < npos \<and> parse_options_json u json = Some (Inr opts)"
  then have r: "parse_options_json u json = Some (Inr opts)" and l: "length json < npos"
    by simp_all
  from parse_options_json_fields(1) [OF r l]
  show "scalar_values u json (temperature opts) (top_p opts) (top_k opts) (max_tokens opts)" .
  show \<open>stop_sequences opts = []\<close> if \<open>str_find json ''"stop_sequences"'' 0 = npos\<close>
    using parse_options_json_fields(2) [OF r l] parse_stop_sequences_absent [OF that] by simp
next
  fix u
  show \<open>parse_options_json u [] =
        Some (Inr \<lparr>temperature = Finite (- 1), top_p = Finite (- 1), top_k = 0,
                    max_tokens = 100, stop_sequences = []\<rparr>)\<close>
    by (simp add: parse_options_json_def)
  show \<open>parse_options_json u ''{"temperature":0.7,"stop_sequences":["END","STOP"]}'' =
        Some (Inr \<lparr>temperature = Finite (11744051 / 16777216), top_p = Finite (- 1),
                    top_k = 0, max_tokens = 100, stop_sequences = [''END'', ''STOP'']\<rparr>)\<close>
    by (simp add: options_eval number_eval float_eval string_eval)
  show \<open>parse_options_json u ''{"max_tokens":256,"top_k":40,"top_p":0.25,"temperature":1.5}'' =
        Some (Inr \<lparr>temperature = Finite (3 / 2), top_p = Finite (1 / 4), top_k = 40,
                    max_tokens = 256, stop_sequences = []\<rparr>)\<close>
    by (simp add: options_eval number_eval float_eval string_eval)
qed

theorem options_defaults_then_overwrite_witness:
  \<open>length ''{"top_p":0.25,"max_tokens":256,"stop_sequences":["a", "b"]}'' < npos
   \<and> scalar_values (\<lambda>m. True) ''{"top_p":0.25,"max_tokens":256,"stop_sequences":["a", "b"]}''
        (Finite (- 1)) (Finite (1 / 4)) 0 256
   \<and> stop_array_text ''{"top_p":0.25,"max_tokens":256,"stop_sequences":["a", "b"]}''
        ''{"top_p":0.25,"max_tokens":256,"stop_sequences":'' [([], ''a''), ('', '', ''b'')] [] ''}''
   \<and> parse_options_json (\<lambda>m. True) ''{"top_p":0.25,"max_tokens":256,"stop_sequences":["a", "b"]}'' =
        Some (Inr \<lparr>temperature = Finite (- 1), top_p = Finite (1 / 4), top_k = 0,
                    max_tokens = 256, stop_sequences = map snd [([], ''a''), ('', '', ''b'')]\<rparr>)\<close>
proof -
  have h: \<open>length ''{"top_p":0.25,"max_tokens":256,"stop_sequences":["a", "b"]}'' < npos
     \<and> scalar_values (\<lambda>m. True) ''{"top_p":0.25,"max_tokens":256,"stop_sequences":["a", "b"]}''
          (Finite (- 1)) (Finite (1 / 4)) 0 256
     \<and> stop_array_text ''{"top_p":0.25,"max_tokens":256,"stop_sequences":["a", "b"]}''
          ''{"top_p":0.25,"max_tokens":256,"stop_sequences":'' [([], ''a''), ('', '', ''b'')] [] ''}''\<close>
    by (simp add: scalar_values_def value_text_def stop_array_text_def stop_item_def
        stop_entry_def string_eval number_eval float_eval)
  from options_defaults_then_overwrite [THEN conjunct2, THEN conjunct1, rule_format, OF h] h
  show ?thesis by blast
qed

lemma stof_error: "stof u t = Inl e \<Longrightarrow> e = Invalid_argument \<or> e = Out_of_range"
  by (auto simp: stof_def Let_def split: prod.splits if_splits option.splits)

lemma stoul_error: "stoul t = Inl e \<Longrightarrow> e = Invalid_argument \<or> e = Out_of_range"
  by (auto simp: stoul_def Let_def split: prod.splits if_splits)

lemma option_text_error: "option_text json key = Inl e \<Longrightarrow> e = Out_of_range"
  by (auto simp: option_text_def substr_def Let_def split: if_splits sum.splits)

lemma float_option_error:
  "float_option u json key d = Inl e \<Longrightarrow> e = Invalid_argument \<or> e = Out_of_range"
  by (auto simp: float_option_def split: sum.splits option.splits
      dest: stof_error option_text_error)

lemma size_option_error:
  "size_option json key d = Inl e \<Longrightarrow> e = Invalid_argument \<or> e = Out_of_range"
  by (auto simp: size_option_def split: sum.splits option.splits
      dest: stoul_error option_text_error)

lemma float_option_fails:
  "option_text json key = Inr (Some t) \<Longrightarrow> stof u t = Inl e \<Longrightarrow> float_option u json key d = Inl e"
  by (simp add: float_option_def)

lemma size_option_fails:
  "option_text json key = Inr (Some t) \<Longrightarrow> stoul t = Inl e \<Longrightarrow> size_option json key d = Inl e"
  by (simp add: size_option_def)

lemma option_text_empty: "key \<noteq> [] \<Longrightarrow> option_text [] key = Inr None"
  by (simp add: option_text_def str_find_def npos_def)

lemma parse_options_json_fatal:
  assumes "json \<noteq> []"
    and \<open>(\<exists>e. float_option u json ''"temperature"'' (Finite (- 1)) = Inl e)
       \<or> (\<exists>e. float_option u json ''"top_p"'' (Finite (- 1)) = Inl e)
       \<or> (\<exists>e. size_option json ''"top_k"'' 0 = Inl e)
       \<or> (\<exists>e. size_option json ''"max_tokens"'' 100 = Inl e)\<close>
  shows "\<exists>e. parse_options_json u json = Some (Inl e) \<and> (e = Invalid_argument \<or> e = Out_of_range)"
proof -
  obtain a b c d where abcd:
    \<open>float_option u json ''"temperature"'' (Finite (- 1)) = a\<close>
    \<open>float_option u json ''"top_p"'' (Finite (- 1)) = b\<close>
    \<open>size_option json ''"top_k"'' 0 = c\<close>
    \<open>size_option json ''"max_tokens"'' 100 = d\<close>
    by blast
  from abcd(1,2) have ab: "\<And>e. a = Inl e \<Longrightarrow> e = Invalid_argument \<or> e = Out_of_range"
    "\<And>e. b = Inl e \<Longrightarrow> e = Invalid_argument \<or> e = Out_of_range"
    by (auto dest: float_option_error)
  from abcd(3,4) have cd: "\<And>e. c = Inl e \<Longrightarrow> e = Invalid_argument \<or> e = Out_of_range"
    "\<And>e. d = Inl e \<Longrightarrow> e = Invalid_argument \<or> e = Out_of_range"
    by (auto dest: size_option_error)
  from assms(2) abcd have "isl a \<or> isl b \<or> isl c \<or> isl d"
    by auto
  with ab cd show ?thesis
    unfolding parse_options_json_def abcd using assms(1)
    by (cases a; cases b; cases c; cases d) auto
qed

text \<open>
  Claim C7. When the text handed to the conversion for one of the four scalar keys does
  not convert (\<^verbatim>\<open>std::stof\<close> or \<^verbatim>\<open>std::stoul\<close> throws), the whole decode throws that kind
  of exception: no default stands in for the value. On \<^verbatim>\<open>{"top_k":"oops"}\<close> the decode
  throws \<^verbatim>\<open>std::invalid_argument\<close>. A numeral that a \<^verbatim>\<open>float\<close> holds exactly converts, also
  below the smallest normal \<^verbatim>\<open>float\<close>: on \<^verbatim>\<open>{"temperature":0x1p-130}\<close> the decode returns.
  All this holds for every choice \<open>u\<close> of the library on underflow.
\<close>

theorem numeric_parse_failure_is_fatal:
  \<open>(\<forall>u json.
      (\<exists>t e. option_text json ''"temperature"'' = Inr (Some t) \<and> stof u t = Inl e)
      \<or> (\<exists>t e. option_text json ''"top_p"'' = Inr (Some t) \<and> stof u t = Inl e)
      \<or> (\<exists>t e. option_text json ''"top_k"'' = Inr (Some t) \<and> stoul t = Inl e)
      \<or> (\<exists>t e. option_text json ''"max_tokens"'' = Inr (Some t) \<and> stoul t = Inl e)
      \<longrightarrow> (\<exists>e. parse_options_json u json = Some (Inl e)
                \<and> (e = Invalid_argument \<or> e = Out_of_range)))
   \<and> (\<forall>u. parse_options_json u ''{"top_k":"oops"}'' = Some (Inl Invalid_argument))
   \<and> (\<forall>u. parse_options_json u ''{"temperature":0x1p-130}'' =
        Some (Inr \<lparr>temperature = Finite (1 / 2 ^ 130), top_p = Finite (- 1), top_k = 0,
                    max_tokens = 100, stop_sequences = []\<rparr>))\<close>
proof (intro conjI allI impI)
  fix u json
  assume a: \<open>(\<exists>t e. option_text json ''"temperature"'' = Inr (Some t) \<and> stof u t = Inl e)
      \<or> (\<exists>t e. option_text json ''"top_p"'' = Inr (Some t) \<and> stof u t = Inl e)
      \<or> (\<exists>t e. option_text json ''"top_k"'' = Inr (Some t) \<and> stoul t = Inl e)
      \<or> (\<exists>t e. option_text json ''"max_tokens"'' = Inr (Some t) \<and> stoul t = Inl e)\<close>
  have "json \<noteq> []"
  proof
    assume "json = []"
    with a show False by (simp add: option_text_empty)
  qed
  moreover from a consider
      (t) t e where \<open>option_text json ''"temperature"'' = Inr (Some t)\<close> "stof u t = Inl e"
    | (p) t e where \<open>option_text json ''"top_p"'' = Inr (Some t)\<close> "stof u t = Inl e"
    | (k) t e where \<open>option_text json ''"top_k"'' = Inr (Some t)\<close> "stoul t = Inl e"
    | (m) t e where \<open>option_text json ''"max_tokens"'' = Inr (Some t)\<close> "stoul t = Inl e"
    by blast
  then have
    \<open>(\<exists>e. float_option u json ''"temperature"'' (Finite (- 1)) = Inl e)
       \<or> (\<exists>e. float_option u json ''"top_p"'' (Finite (- 1)) = Inl e)
       \<or> (\<exists>e. size_option json ''"top_k"'' 0 = Inl e)
       \<or> (\<exists>e. size_option json ''"max_tokens"'' 100 = Inl e)\<close>
  proof cases
    case t
    from float_option_fails [OF this] show ?thesis by blast
  next
    case p
    from float_option_fails [OF this] show ?thesis by blast
  next
    case k
    from size_option_fails [OF this] show ?thesis by blast
  next
    case m
    from size_option_fails [OF this] show ?thesis by blast
  qed
  ultimately show "\<exists>e. parse_options_json u json = Some (Inl e)
      \<and> (e = Invalid_argument \<or> e = Out_of_range)"
    by (rule parse_options_json_fatal)
next
  fix u
  show \<open>parse_options_json u ''{"top_k":"oops"}'' = Some (Inl Invalid_argument)\<close>
    by (simp add: options_eval number_eval string_eval)
  show \<open>parse_options_json u ''{"temperature":0x1p-130}'' =
        Some (Inr \<lparr>temperature = Finite (1 / 2 ^ 130), top_p = Finite (- 1), top_k = 0,
                    max_tokens = 100, stop_sequences = []\<rparr>)\<close>
    by (simp add: options_eval number_eval float_eval string_eval)
qed

theorem numeric_parse_failure_is_fatal_witness:
  \<open>option_text ''{"temperature": hot}'' ''"temperature"'' = Inr (Some '' hot}'')
   \<and> stof (\<lambda>m. True) '' hot}'' = Inl Invalid_argument
   \<and> (\<exists>e. parse_options_json (\<lambda>m. True) ''{"temperature": hot}'' = Some (Inl e)
          \<and> (e = Invalid_argument \<or> e = Out_of_range))\<close>
proof -
  have h: \<open>option_text ''{"temperature": hot}'' ''"temperature"'' = Inr (Some '' hot}'')\<close>
    by (simp add: option_text_def string_eval)
  have k: \<open>stof (\<lambda>m. True) '' hot}'' = Inl Invalid_argument\<close>
    by (simp add: number_eval)
  from numeric_parse_failure_is_fatal [THEN conjunct1, rule_format,
      of \<open>''{"temperature": hot}''\<close> \<open>\<lambda>m. True\<close>] h k
  show ?thesis by blast
qed

end
